theory Spec2Isabelle
  imports Main "HOL-Library.Word"
begin

unbundle bit_operations_syntax

section \<open>The intermediate representation\<close>

text \<open>
  The pass of \<^verbatim>\<open>CanonPtr.cpp\<close> works on LLVM functions. A \<^verbatim>\<open>BasicBlock *\<close> and an
  \<^verbatim>\<open>Instruction *\<close> are addresses; here they are natural numbers, and a new block or
  instruction gets a reference that occurs nowhere in the function.
\<close>

type_synonym block_ref = nat
type_synonym inst_ref = nat

text \<open>
  A value used as an operand: the result of an instruction, a function argument (with its
  name), a global variable, another global (a function or an alias), or an integer
  constant. Integer values are held at the pointer width of 64 bits.
\<close>

datatype val =
    VInst inst_ref
  | VArg string
  | VGlobalVar string
  | VGlobalOther string
  | VConstInt "64 word"

datatype binop = OpLShr | OpShl | OpAnd | OpSub | OpAdd | OpMul

datatype castop = OpPtrToInt | OpIntToPtr

text \<open>
  The instructions the pass tells apart. A \<open>GEP\<close> holds its pointer operand, its indices,
  each paired with the byte size that the data layout gives to the element or field it
  steps over, and whether its result type is a vector of pointers. A \<open>PHI\<close> holds its
  incoming (value, block) entries in order. An \<open>Invoke\<close> holds its arguments, its normal
  destination and its unwind destination. An \<open>EHPad\<close> is a \<^verbatim>\<open>landingpad\<close>, \<^verbatim>\<open>catchpad\<close> or
  \<^verbatim>\<open>cleanuppad\<close>, the first instruction after the PHI nodes of a block that an exception
  reaches; a \<open>CatchSwitch\<close> is the terminator that is such a pad as well.
\<close>

datatype ikind =
    GEP val "(val \<times> nat) list" bool
  | PHI "(val \<times> block_ref) list"
  | Invoke "val list" block_ref block_ref
  | Branch block_ref
  | Cast castop val
  | BinOp binop val val
  | EHPad "val list"
  | CatchSwitch "val list" "block_ref list"
  | OtherInst "val list"
  | OtherTerm "val list" "block_ref list"

record inst =
  iref :: inst_ref
  iname :: string
  ikind :: ikind

record block =
  bref :: block_ref
  bname :: string
  insts :: "inst list"

datatype linkage =
    ExternalLinkage | AvailableExternallyLinkage | LinkOnceAnyLinkage | LinkOnceODRLinkage
  | WeakAnyLinkage | WeakODRLinkage | AppendingLinkage | InternalLinkage | PrivateLinkage
  | ExternalWeakLinkage | CommonLinkage

datatype attr = DisableSanitizerInstrumentation | CanonPtr | OtherAttr string

record func =
  fname :: string
  blocks :: "block list"
  flinkage :: linkage
  isDeclaration :: bool
  attrs :: "attr list"

datatype error = AssertionFailed | InvalidPointer

text \<open>\<^verbatim>\<open>StringRef::starts_with\<close>: \<open>starts_with s p\<close> holds when \<open>p\<close> is a prefix of \<open>s\<close>.\<close>

fun starts_with :: "string \<Rightarrow> string \<Rightarrow> bool" where
  "starts_with s [] = True"
| "starts_with [] (p # ps) = False"
| "starts_with (c # cs) (p # ps) = (c = p \<and> starts_with cs ps)"

definition all_insts :: "func \<Rightarrow> inst list" where
  "all_insts f = concat (map insts (blocks f))"

text \<open>
  The instruction behind a reference, with the block that holds it (\<^verbatim>\<open>getParent\<close>), and
  the block behind a reference; \<open>None\<close> when nothing of the function has the reference.
\<close>

fun lookup_inst :: "inst_ref \<Rightarrow> inst list \<Rightarrow> inst option" where
  "lookup_inst i [] = None"
| "lookup_inst i (x # xs) = (if iref x = i then Some x else lookup_inst i xs)"

fun find_in_blocks :: "inst_ref \<Rightarrow> block list \<Rightarrow> (block \<times> inst) option" where
  "find_in_blocks i [] = None"
| "find_in_blocks i (b # bs) =
     (case lookup_inst i (insts b) of
        Some x \<Rightarrow> Some (b, x)
      | None \<Rightarrow> find_in_blocks i bs)"

definition find_inst :: "func \<Rightarrow> inst_ref \<Rightarrow> (block \<times> inst) option" where
  "find_inst f i = find_in_blocks i (blocks f)"

fun lookup_block :: "block_ref \<Rightarrow> block list \<Rightarrow> block option" where
  "lookup_block d [] = None"
| "lookup_block d (b # bs) = (if bref b = d then Some b else lookup_block d bs)"

definition find_block :: "func \<Rightarrow> block_ref \<Rightarrow> block option" where
  "find_block f d = lookup_block d (blocks f)"

text \<open>\<^verbatim>\<open>Value::getName\<close>; the empty string when the value has no name (\<^verbatim>\<open>hasName\<close>).\<close>

fun getName :: "func \<Rightarrow> val \<Rightarrow> string" where
  "getName f (VInst i) = (case find_inst f i of None \<Rightarrow> [] | Some (b, x) \<Rightarrow> iname x)"
| "getName f (VArg n) = n"
| "getName f (VGlobalVar n) = n"
| "getName f (VGlobalOther n) = n"
| "getName f (VConstInt c) = []"

definition hasName :: "func \<Rightarrow> val \<Rightarrow> bool" where
  "hasName f v = (getName f v \<noteq> [])"

section \<open>Eligibility filter\<close>

text \<open>\<^verbatim>\<open>CanonPtrPass::shouldInstrument\<close>, one early return after the other.\<close>

definition hasFnAttribute :: "func \<Rightarrow> attr \<Rightarrow> bool" where
  "hasFnAttribute f a = (a \<in> set (attrs f))"

definition shouldInstrument :: "func \<Rightarrow> bool" where
  "shouldInstrument f =
     (if blocks f = [] then False
      else if isDeclaration f then False
      else if flinkage f = AvailableExternallyLinkage then False
      else if starts_with (fname f) ''__canonptr_'' then False
      else if hasFnAttribute f DisableSanitizerInstrumentation then False
      else hasFnAttribute f CanonPtr)"

section \<open>Vtable classifier\<close>

text \<open>\<^verbatim>\<open>CanonPtrPass::isVtableGep\<close> on the pointer operand and the indices of a GEP.\<close>

definition isVtableGep :: "func \<Rightarrow> val \<Rightarrow> (val \<times> nat) list \<Rightarrow> bool" where
  "isVtableGep f SrcPtr idxs =
     (if hasName f SrcPtr \<and> starts_with (getName f SrcPtr) ''vtable'' then True
      else if length idxs = 1 \<and> hasName f (fst (hd idxs))
                \<and> starts_with (getName f (fst (hd idxs))) ''vbase.offset'' then True
      else (case SrcPtr of
              VGlobalVar n \<Rightarrow> starts_with n ''_ZTV''
            | _ \<Rightarrow> False))"


section \<open>Operands, users and references\<close>

fun operands :: "ikind \<Rightarrow> val list" where
  "operands (GEP p idxs vec) = p # map fst idxs"
| "operands (PHI inc) = map fst inc"
| "operands (Invoke args n u) = args"
| "operands (Branch d) = []"
| "operands (Cast c v) = [v]"
| "operands (BinOp b v w) = [v, w]"
| "operands (EHPad ops) = ops"
| "operands (CatchSwitch ops succs) = ops"
| "operands (OtherInst ops) = ops"
| "operands (OtherTerm ops succs) = ops"

fun map_operands :: "(val \<Rightarrow> val) \<Rightarrow> ikind \<Rightarrow> ikind" where
  "map_operands h (GEP p idxs vec) = GEP (h p) (map (\<lambda>(v, sz). (h v, sz)) idxs) vec"
| "map_operands h (PHI inc) = PHI (map (\<lambda>(v, b). (h v, b)) inc)"
| "map_operands h (Invoke args n u) = Invoke (map h args) n u"
| "map_operands h (Branch d) = Branch d"
| "map_operands h (Cast c v) = Cast c (h v)"
| "map_operands h (BinOp b v w) = BinOp b (h v) (h w)"
| "map_operands h (EHPad ops) = EHPad (map h ops)"
| "map_operands h (CatchSwitch ops succs) = CatchSwitch (map h ops) succs"
| "map_operands h (OtherInst ops) = OtherInst (map h ops)"
| "map_operands h (OtherTerm ops succs) = OtherTerm (map h ops) succs"

fun isTerminator :: "ikind \<Rightarrow> bool" where
  "isTerminator (Invoke args n u) = True"
| "isTerminator (Branch d) = True"
| "isTerminator (CatchSwitch ops succs) = True"
| "isTerminator (OtherTerm ops succs) = True"
| "isTerminator k = False"

text \<open>The successor blocks a terminator names, and the blocks a PHI's entries are keyed by.\<close>

fun successors_of :: "ikind \<Rightarrow> block_ref list" where
  "successors_of (Invoke args n u) = [n, u]"
| "successors_of (Branch d) = [d]"
| "successors_of (CatchSwitch ops succs) = succs"
| "successors_of (OtherTerm ops succs) = succs"
| "successors_of k = []"

fun incoming_blocks :: "ikind \<Rightarrow> block_ref list" where
  "incoming_blocks (PHI inc) = map snd inc"
| "incoming_blocks k = []"

fun isPHI :: "ikind \<Rightarrow> bool" where
  "isPHI (PHI inc) = True"
| "isPHI k = False"

text \<open>\<^verbatim>\<open>Instruction::isEHPad\<close>.\<close>

fun isEHPad :: "ikind \<Rightarrow> bool" where
  "isEHPad (EHPad ops) = True"
| "isEHPad (CatchSwitch ops succs) = True"
| "isEHPad k = False"

fun isGEP :: "ikind \<Rightarrow> bool" where
  "isGEP (GEP p idxs vec) = True"
| "isGEP k = False"

fun val_refs :: "val \<Rightarrow> inst_ref list" where
  "val_refs (VInst i) = [i]"
| "val_refs v = []"

text \<open>
  The users of an instruction (\<^verbatim>\<open>user_begin\<close> to \<^verbatim>\<open>user_end\<close>): one entry for each
  operand of an instruction of the function that is the instruction's result.
\<close>

definition users :: "func \<Rightarrow> inst_ref \<Rightarrow> inst_ref list" where
  "users f g =
     concat (map (\<lambda>x. map (\<lambda>v. iref x) (filter (\<lambda>v. v = VInst g) (operands (ikind x))))
                 (all_insts f))"

text \<open>
  The terminator of a block is its last instruction when that is a terminator; the
  successors of a block are those of its terminator. The predecessors of a block are the
  parents of the terminators that name it, one entry for each such edge.
\<close>

definition successors :: "block \<Rightarrow> block_ref list" where
  "successors b =
     (case rev (insts b) of [] \<Rightarrow> []
      | x # xs \<Rightarrow> if isTerminator (ikind x) then successors_of (ikind x) else [])"

definition predecessors :: "func \<Rightarrow> block_ref \<Rightarrow> block_ref list" where
  "predecessors f t =
     concat (map (\<lambda>b. concat (map (\<lambda>x. map (\<lambda>s. bref b)
                                    (filter (\<lambda>s. s = t) (successors_of (ikind x))))
                               (insts b)))
                 (blocks f))"

text \<open>
  A new instruction or block is a new object: its reference is above every reference
  that the function defines or mentions.
\<close>

definition inst_refs :: "func \<Rightarrow> inst_ref list" where
  "inst_refs f =
     concat (map (\<lambda>x. iref x # concat (map val_refs (operands (ikind x)))) (all_insts f))"

definition fresh_inst :: "func \<Rightarrow> inst_ref" where
  "fresh_inst f = Suc (fold max (inst_refs f) 0)"

definition block_refs :: "func \<Rightarrow> block_ref list" where
  "block_refs f =
     map bref (blocks f)
     @ concat (map (\<lambda>x. successors_of (ikind x) @ incoming_blocks (ikind x)) (all_insts f))"

definition fresh_block :: "func \<Rightarrow> block_ref" where
  "fresh_block f = Suc (fold max (block_refs f) 0)"

section \<open>Mutating a function\<close>

definition map_insts :: "(inst \<Rightarrow> inst) \<Rightarrow> func \<Rightarrow> func" where
  "map_insts h f = f\<lparr>blocks := map (\<lambda>b. b\<lparr>insts := map h (insts b)\<rparr>) (blocks f)\<rparr>"

text \<open>\<^verbatim>\<open>User::replaceUsesOfWith\<close> on the user \<open>u\<close>: every operand that is \<open>From\<close> becomes \<open>To\<close>.\<close>

definition replaceUsesOfWith :: "inst_ref \<Rightarrow> val \<Rightarrow> val \<Rightarrow> func \<Rightarrow> func" where
  "replaceUsesOfWith u From To f =
     map_insts (\<lambda>x. if iref x = u
                     then x\<lparr>ikind := map_operands (\<lambda>v. if v = From then To else v) (ikind x)\<rparr>
                     else x) f"

text \<open>Inserting an instruction before the instruction \<open>ip\<close>, in the block that holds it.\<close>

fun ins_before :: "inst_ref \<Rightarrow> inst \<Rightarrow> inst list \<Rightarrow> inst list" where
  "ins_before ip n [] = []"
| "ins_before ip n (x # xs) = (if iref x = ip then n # x # xs else x # ins_before ip n xs)"

fun ins_before_blocks :: "inst_ref \<Rightarrow> inst \<Rightarrow> block list \<Rightarrow> block list" where
  "ins_before_blocks ip n [] = []"
| "ins_before_blocks ip n (b # bs) =
     (if ip \<in> set (map iref (insts b)) then b\<lparr>insts := ins_before ip n (insts b)\<rparr> # bs
      else b # ins_before_blocks ip n bs)"

definition insert_before :: "inst_ref \<Rightarrow> inst \<Rightarrow> func \<Rightarrow> func" where
  "insert_before ip n f = f\<lparr>blocks := ins_before_blocks ip n (blocks f)\<rparr>"

text \<open>\<^verbatim>\<open>BasicBlock::Create\<close> with an insert-before block: the new block goes before \<open>d\<close>.\<close>

fun insertBlockBefore :: "block_ref \<Rightarrow> block \<Rightarrow> block list \<Rightarrow> block list" where
  "insertBlockBefore d n [] = []"
| "insertBlockBefore d n (b # bs) =
     (if bref b = d then n # b # bs else b # insertBlockBefore d n bs)"

text \<open>\<^verbatim>\<open>InvokeInst::setNormalDest\<close> on the invoke \<open>i\<close>.\<close>

definition setNormalDest :: "inst_ref \<Rightarrow> block_ref \<Rightarrow> func \<Rightarrow> func" where
  "setNormalDest i d f =
     map_insts (\<lambda>x. if iref x = i
                     then (case ikind x of Invoke args n u \<Rightarrow> x\<lparr>ikind := Invoke args d u\<rparr>
                           | _ \<Rightarrow> x)
                     else x) f"

section \<open>Insertion-point resolver\<close>

text \<open>
  \<^verbatim>\<open>PHINode::getBasicBlockIndex\<close>: the index of the first incoming entry keyed by the
  block, or \<open>-1\<close>. \<^verbatim>\<open>PHINode::setIncomingBlock\<close> rekeys the entry at an index.
\<close>

fun getBasicBlockIndex :: "(val \<times> block_ref) list \<Rightarrow> block_ref \<Rightarrow> int" where
  "getBasicBlockIndex [] X = - 1"
| "getBasicBlockIndex ((v, b) # r) X =
     (if b = X then 0
      else (let i = getBasicBlockIndex r X in if i < 0 then - 1 else i + 1))"

definition setIncomingBlock ::
  "(val \<times> block_ref) list \<Rightarrow> int \<Rightarrow> block_ref \<Rightarrow> (val \<times> block_ref) list" where
  "setIncomingBlock inc i B = inc[nat i := (fst (inc ! nat i), B)]"

text \<open>
  The inner loop of \<^verbatim>\<open>getInsertPointAfter\<close>:
  \<^verbatim>\<open>while ((i = PN->getBasicBlockIndex(Invoke->getParent())) >= 0) PN->setIncomingBlock(i, NewBlock);\<close>
  It runs for as long as an entry keyed by the block is left, so it is a partial function:
  \<open>None\<close> stands for a loop that does not end.
\<close>

partial_function (option) patchIncoming ::
  "block_ref \<Rightarrow> block_ref \<Rightarrow> (val \<times> block_ref) list \<Rightarrow> (val \<times> block_ref) list option" where
  "patchIncoming X NewBlock inc =
     (let i = getBasicBlockIndex inc X in
      if i \<ge> 0 then patchIncoming X NewBlock (setIncomingBlock inc i NewBlock)
      else Some inc)"

declare patchIncoming.simps [code]

text \<open>
  The outer loop walks the instructions of the destination from its first one for as long
  as they are PHI nodes. A block that holds nothing but PHI nodes ends the walk.
\<close>

fun patchPHIs :: "block_ref \<Rightarrow> block_ref \<Rightarrow> inst list \<Rightarrow> inst list option" where
  "patchPHIs X NewBlock [] = Some []"
| "patchPHIs X NewBlock (x # xs) =
     (case ikind x of
        PHI inc \<Rightarrow>
          (case patchIncoming X NewBlock inc of
             None \<Rightarrow> None
           | Some inc' \<Rightarrow>
               (case patchPHIs X NewBlock xs of
                  None \<Rightarrow> None
                | Some xs' \<Rightarrow> Some (x\<lparr>ikind := PHI inc'\<rparr> # xs')))
      | _ \<Rightarrow> Some (x # xs))"

text \<open>
  \<^verbatim>\<open>BasicBlock::getFirstInsertionPt\<close>: the first instruction that is not a PHI node, or the
  one after it when that first one is an exception-handling pad. \<^verbatim>\<open>std::next\<close> of an
  instruction in its block. Both are \<open>None\<close> where the iterator would be the end of the
  block.
\<close>

definition getFirstInsertionPt :: "block \<Rightarrow> inst_ref option" where
  "getFirstInsertionPt b =
     (case dropWhile (\<lambda>x. isPHI (ikind x)) (insts b) of
        [] \<Rightarrow> None
      | x # xs \<Rightarrow>
          if isEHPad (ikind x)
          then (case xs of [] \<Rightarrow> None | y # ys \<Rightarrow> Some (iref y))
          else Some (iref x))"

fun next_inst :: "inst_ref \<Rightarrow> inst list \<Rightarrow> inst_ref option" where
  "next_inst i [] = None"
| "next_inst i [x] = None"
| "next_inst i (x # y # r) = (if iref x = i then Some (iref y) else next_inst i (y # r))"

definition map_block :: "block_ref \<Rightarrow> (block \<Rightarrow> block) \<Rightarrow> func \<Rightarrow> func" where
  "map_block d h f = f\<lparr>blocks := map (\<lambda>b. if bref b = d then h b else b) (blocks f)\<rparr>"

text \<open>
  \<^verbatim>\<open>getInsertPointAfter(Instruction *)\<close>. The result is the function after the surgery and
  the instruction before which new instructions go.
\<close>

definition getInsertPointAfter :: "func \<Rightarrow> inst_ref \<Rightarrow> (error + func \<times> inst_ref) option" where
  "getInsertPointAfter f i =
     (case find_inst f i of
        None \<Rightarrow> Some (Inl InvalidPointer)
      | Some (X, I) \<Rightarrow>
          (case ikind I of
             Invoke args Dst Uw \<Rightarrow>
               (case find_block f Dst of
                  None \<Rightarrow> Some (Inl InvalidPointer)
                | Some D \<Rightarrow>
                    (let NewBlock = fresh_block f;
                         BrRef = fresh_inst f;
                         BrI = \<lparr>iref = BrRef, iname = [], ikind = Branch Dst\<rparr>;
                         f1 = f\<lparr>blocks := insertBlockBefore Dst
                                 \<lparr>bref = NewBlock, bname = ''invoke_insert_point'', insts = [BrI]\<rparr>
                                 (blocks f)\<rparr>;
                         f2 = setNormalDest i NewBlock f1
                     in (case find_block f2 Dst of
                           None \<Rightarrow> Some (Inl InvalidPointer)
                         | Some D2 \<Rightarrow>
                             (case patchPHIs (bref X) NewBlock (insts D2) of
                                None \<Rightarrow> None
                              | Some patched \<Rightarrow>
                                  Some (Inr (map_block Dst (\<lambda>b. b\<lparr>insts := patched\<rparr>) f2,
                                             BrRef))))))
           | PHI inc \<Rightarrow>
               (case getFirstInsertionPt X of
                  None \<Rightarrow> Some (Inl InvalidPointer)
                | Some p \<Rightarrow> Some (Inr (f, p)))
           | _ \<Rightarrow>
               if isTerminator (ikind I) then Some (Inl AssertionFailed)
               else (case next_inst i (insts X) of
                       None \<Rightarrow> Some (Inl InvalidPointer)
                     | Some p \<Rightarrow> Some (Inr (f, p)))))"

text \<open>\<^verbatim>\<open>getInsertPointAfter(Argument *)\<close>: the first insertion point of the entry block.\<close>

definition getInsertPointAfterArg :: "func \<Rightarrow> error + inst_ref" where
  "getInsertPointAfterArg f =
     (case blocks f of
        [] \<Rightarrow> Inl AssertionFailed
      | b # bs \<Rightarrow> (case getFirstInsertionPt b of None \<Rightarrow> Inl InvalidPointer | Some p \<Rightarrow> Inr p))"


section \<open>Instruction values\<close>

text \<open>
  What the integer instructions compute on 64-bit values. A pointer is a 64-bit value and
  both casts keep its bits. (A shift by 64 or more is poison in LLVM; the pass shifts by
  48 and 49 only.)
\<close>

fun eval_binop :: "binop \<Rightarrow> 64 word \<Rightarrow> 64 word \<Rightarrow> 64 word" where
  "eval_binop OpLShr a b = drop_bit (unat b) a"
| "eval_binop OpShl a b = push_bit (unat b) a"
| "eval_binop OpAnd a b = a AND b"
| "eval_binop OpSub a b = a - b"
| "eval_binop OpAdd a b = a + b"
| "eval_binop OpMul a b = a * b"

text \<open>A store gives every value its 64 bits; a constant is its own value.\<close>

fun eval :: "(val \<Rightarrow> 64 word) \<Rightarrow> val \<Rightarrow> 64 word" where
  "eval s (VConstInt c) = c"
| "eval s v = s v"

definition exec_inst :: "(val \<Rightarrow> 64 word) \<Rightarrow> inst \<Rightarrow> (val \<Rightarrow> 64 word)" where
  "exec_inst s x =
     (case ikind x of
        BinOp b v w \<Rightarrow> s(VInst (iref x) := eval_binop b (eval s v) (eval s w))
      | Cast c v \<Rightarrow> s(VInst (iref x) := eval s v)
      | _ \<Rightarrow> s)"

fun exec :: "(val \<Rightarrow> 64 word) \<Rightarrow> inst list \<Rightarrow> (val \<Rightarrow> 64 word)" where
  "exec s [] = s"
| "exec s (x # xs) = exec (exec_inst s x) xs"

section \<open>Instruction builder\<close>

text \<open>
  An \<^verbatim>\<open>IRBuilder<>\<close> made from an instruction inserts each new instruction before it. With
  the default constant folder, an operation on two constants gives a constant and inserts
  nothing; any other operation inserts an instruction and gives its result.
\<close>

record builder =
  bfunc :: func
  bpoint :: inst_ref

definition Insert :: "builder \<Rightarrow> string \<Rightarrow> ikind \<Rightarrow> val \<times> builder" where
  "Insert B nm k =
     (let r = fresh_inst (bfunc B)
      in (VInst r,
          B\<lparr>bfunc := insert_before (bpoint B) \<lparr>iref = r, iname = nm, ikind = k\<rparr> (bfunc B)\<rparr>))"

definition CreateBinOp :: "binop \<Rightarrow> builder \<Rightarrow> val \<Rightarrow> val \<Rightarrow> string \<Rightarrow> val \<times> builder" where
  "CreateBinOp b B v w nm =
     (case (v, w) of
        (VConstInt x, VConstInt y) \<Rightarrow> (VConstInt (eval_binop b x y), B)
      | _ \<Rightarrow> Insert B nm (BinOp b v w))"

definition CreateLShr :: "builder \<Rightarrow> val \<Rightarrow> val \<Rightarrow> string \<Rightarrow> val \<times> builder" where
  "CreateLShr = CreateBinOp OpLShr"

definition CreateShl :: "builder \<Rightarrow> val \<Rightarrow> val \<Rightarrow> string \<Rightarrow> val \<times> builder" where
  "CreateShl = CreateBinOp OpShl"

definition CreateAnd :: "builder \<Rightarrow> val \<Rightarrow> val \<Rightarrow> string \<Rightarrow> val \<times> builder" where
  "CreateAnd = CreateBinOp OpAnd"

definition CreateAdd :: "builder \<Rightarrow> val \<Rightarrow> val \<Rightarrow> string \<Rightarrow> val \<times> builder" where
  "CreateAdd = CreateBinOp OpAdd"

definition CreateMul :: "builder \<Rightarrow> val \<Rightarrow> val \<Rightarrow> string \<Rightarrow> val \<times> builder" where
  "CreateMul = CreateBinOp OpMul"

text \<open>\<^verbatim>\<open>CreateNeg\<close> is the subtraction from zero.\<close>

definition CreateNeg :: "builder \<Rightarrow> val \<Rightarrow> string \<Rightarrow> val \<times> builder" where
  "CreateNeg B v nm = CreateBinOp OpSub B (VConstInt 0) v nm"

text \<open>
  The pass casts the GEP and the sum that holds its cast; neither is a constant, so both
  casts insert an instruction (the \<^verbatim>\<open>cast<Instruction>\<close> of the source relies on it).
\<close>

definition CreatePtrToInt :: "builder \<Rightarrow> val \<Rightarrow> string \<Rightarrow> val \<times> builder" where
  "CreatePtrToInt B v nm = Insert B nm (Cast OpPtrToInt v)"

definition CreateIntToPtr :: "builder \<Rightarrow> val \<Rightarrow> string \<Rightarrow> val \<times> builder" where
  "CreateIntToPtr B v nm = Insert B nm (Cast OpIntToPtr v)"

section \<open>Offset synthesizer\<close>

text \<open>\<^verbatim>\<open>GetElementPtrInst::hasAllZeroIndices\<close>: every index is the constant zero.\<close>

definition hasAllZeroIndices :: "(val \<times> nat) list \<Rightarrow> bool" where
  "hasAllZeroIndices idxs = list_all (\<lambda>(v, sz). v = VConstInt 0) idxs"

text \<open>
  Modelled from the spec: \<^verbatim>\<open>GetElementPtrInst::accumulateConstantOffset\<close> is LLVM library
  code outside the pass. It folds the full set of indices, given each index's element or
  field byte size from the layout, into a single 64-bit constant added to the offset so
  far, and fails when an index is not statically known. A constant index is held as its
  sign extension to 64 bits, so a negative index is a negative displacement.
\<close>

fun accumulateConstantOffset :: "(val \<times> nat) list \<Rightarrow> 64 word \<Rightarrow> 64 word option" where
  "accumulateConstantOffset [] Offset = Some Offset"
| "accumulateConstantOffset ((VConstInt c, sz) # r) Offset =
     accumulateConstantOffset r (Offset + c * of_nat sz)"
| "accumulateConstantOffset ((v, sz) # r) Offset = None"

text \<open>
  Modelled from the spec: \<^verbatim>\<open>emitGEPOffset\<close> is LLVM library code outside the pass. For
  each index it multiplies the index, at pointer width, by its element's byte size, and
  sums the products, all at the 64-bit integer type; the sum of no products is zero.
\<close>

fun emitGEPOffset_loop ::
  "builder \<Rightarrow> string \<Rightarrow> (val \<times> nat) list \<Rightarrow> val option \<Rightarrow> val option \<times> builder" where
  "emitGEPOffset_loop B nm [] Result = (Result, B)"
| "emitGEPOffset_loop B nm ((v, sz) # r) Result =
     (let (Op, B1) = CreateMul B v (VConstInt (of_nat sz)) (nm @ ''.idx'');
          (Sum, B2) = (case Result of
                         None \<Rightarrow> (Op, B1)
                       | Some R \<Rightarrow> CreateAdd B1 R Op (nm @ ''.offs''))
      in emitGEPOffset_loop B2 nm r (Some Sum))"

definition emitGEPOffset :: "builder \<Rightarrow> string \<Rightarrow> (val \<times> nat) list \<Rightarrow> val \<times> builder" where
  "emitGEPOffset B nm idxs =
     (case emitGEPOffset_loop B nm idxs None of
        (None, B') \<Rightarrow> (VConstInt 0, B')
      | (Some R, B') \<Rightarrow> (R, B'))"

section \<open>Bit-tagging code generator\<close>

text \<open>
  Lines 136 to 180 of \<^verbatim>\<open>runOnFunc\<close>, for the GEP \<open>g\<close> with name \<open>nm\<close> and indices \<open>idxs\<close>,
  from the insertion point \<open>ip\<close>: the users are read before anything is emitted.
\<close>

definition tagGEP :: "func \<Rightarrow> inst_ref \<Rightarrow> inst_ref \<Rightarrow> string \<Rightarrow> (val \<times> nat) list \<Rightarrow> func" where
  "tagGEP f ip g nm idxs =
     (let Prefix = (if nm \<noteq> [] then nm @ ''.'' else []);
          B0 = \<lparr>bfunc = f, bpoint = ip\<rparr>;
          Users = users f g;
          (PtrInt, B1) = CreatePtrToInt B0 (VInst g) (Prefix @ ''int'');
          (UpperBits, B2) = CreateLShr B1 PtrInt (VConstInt 48) (Prefix @ ''upperbits'');
          (EnableSel, B3) = CreateAnd B2 UpperBits (VConstInt 1) (Prefix @ ''enable.sel'');
          (EnableBit, B4) = CreateNeg B3 EnableSel (Prefix @ ''enable.bit'');
          (Diff, B5) = (case accumulateConstantOffset idxs 0 of
                          Some ConstOffset \<Rightarrow> (VConstInt ConstOffset, B4)
                        | None \<Rightarrow> emitGEPOffset B4 nm idxs);
          (Shifted, B6) = CreateShl B5 Diff (VConstInt 49) (Prefix @ ''shifted'');
          (AddOffset, B7) = CreateAnd B6 Shifted EnableBit [];
          (PtrAdd, B8) = CreateAdd B7 PtrInt AddOffset (Prefix @ ''added'');
          (NewPtr, B9) = CreateIntToPtr B8 PtrAdd (Prefix @ ''newptr'')
      in fold (\<lambda>U. replaceUsesOfWith U (VInst g) NewPtr) Users (bfunc B9))"

text \<open>The body of the loop over the snapshot, for one entry.\<close>

definition runOnFunc_body :: "func \<Rightarrow> inst_ref \<Rightarrow> (error + func) option" where
  "runOnFunc_body f g =
     (case find_inst f g of
        None \<Rightarrow> Some (Inl InvalidPointer)
      | Some (X, G) \<Rightarrow>
          (case ikind G of
             GEP SrcPtr idxs vec \<Rightarrow>
               if hasAllZeroIndices idxs then Some (Inr f)
               else if isVtableGep f SrcPtr idxs then Some (Inr f)
               else if vec then Some (Inr f)
               else (case getInsertPointAfter f g of
                       None \<Rightarrow> None
                     | Some (Inl e) \<Rightarrow> Some (Inl e)
                     | Some (Inr (f1, ip)) \<Rightarrow> Some (Inr (tagGEP f1 ip g (iname G) idxs)))
           | _ \<Rightarrow> Some (Inl InvalidPointer)))"

section \<open>Candidate scanner and driver\<close>

definition GEPs :: "func \<Rightarrow> inst_ref list" where
  "GEPs f = map iref (filter (\<lambda>x. isGEP (ikind x)) (all_insts f))"

fun runOnFunc_loop :: "func \<Rightarrow> inst_ref list \<Rightarrow> (error + func) option" where
  "runOnFunc_loop f [] = Some (Inr f)"
| "runOnFunc_loop f (g # gs) =
     (case runOnFunc_body f g of
        None \<Rightarrow> None
      | Some (Inl e) \<Rightarrow> Some (Inl e)
      | Some (Inr f') \<Rightarrow> runOnFunc_loop f' gs)"

definition runOnFunc :: "func \<Rightarrow> (error + func) option" where
  "runOnFunc f = runOnFunc_loop f (GEPs f)"

text \<open>\<^verbatim>\<open>CanonPtrPass::run\<close> on a module, the list of its functions.\<close>

fun run :: "func list \<Rightarrow> (error + func list) option" where
  "run [] = Some (Inr [])"
| "run (F # M) =
     (case (if shouldInstrument F then runOnFunc F else Some (Inr F)) of
        None \<Rightarrow> None
      | Some (Inl e) \<Rightarrow> Some (Inl e)
      | Some (Inr F') \<Rightarrow>
          (case run M of
             None \<Rightarrow> None
           | Some (Inl e) \<Rightarrow> Some (Inl e)
           | Some (Inr M') \<Rightarrow> Some (Inr (F' # M'))))"

section \<open>Well-formed functions\<close>

text \<open>
  Invariants of the IR that the theorems below assume where they need them: an instruction
  and a block are objects, so no two instructions of a function share a reference and no
  two blocks do, and every block ends in a terminator, its only one.
\<close>

definition distinct_insts :: "func \<Rightarrow> bool" where
  "distinct_insts f = distinct (map iref (all_insts f))"

definition distinct_blocks :: "func \<Rightarrow> bool" where
  "distinct_blocks f = distinct (map bref (blocks f))"

definition terminated :: "func \<Rightarrow> bool" where
  "terminated f = list_all (\<lambda>b. insts b \<noteq> [] \<and> isTerminator (ikind (last (insts b)))) (blocks f)"

text \<open>No block has a terminator before its last instruction.\<close>

definition single_terminator :: "func \<Rightarrow> bool" where
  "single_terminator f =
     list_all (\<lambda>b. list_all (\<lambda>x. \<not> isTerminator (ikind x)) (butlast (insts b))) (blocks f)"

section \<open>Describing a rewrite\<close>

text \<open>
  The references a list of instructions defines or mentions, and the values that mention
  only references below a bound.
\<close>

definition refs_of :: "inst list \<Rightarrow> inst_ref list" where
  "refs_of L = concat (map (\<lambda>x. iref x # concat (map val_refs (operands (ikind x)))) L)"

definition known :: "nat \<Rightarrow> val \<Rightarrow> bool" where
  "known n v = (\<forall>r\<in>set (val_refs v). r < n)"

text \<open>The function \<open>f\<close> with the instructions of its block \<open>X\<close>, between \<open>bs1\<close> and \<open>bs2\<close>, replaced.\<close>

definition splice :: "func \<Rightarrow> block list \<Rightarrow> block \<Rightarrow> block list \<Rightarrow> inst list \<Rightarrow> func" where
  "splice f bs1 X bs2 L = f\<lparr>blocks := bs1 @ X\<lparr>insts := L\<rparr> # bs2\<rparr>"

text \<open>
  The state of a builder that has emitted the instructions \<open>cur\<close> before the instruction
  \<open>I\<close> of block \<open>X\<close>: they carry the references from \<open>n\<close> on, in order, and each mentions
  only references below its own.
\<close>

definition Inv ::
  "func \<Rightarrow> block list \<Rightarrow> block \<Rightarrow> block list \<Rightarrow> inst list \<Rightarrow> inst \<Rightarrow> inst list \<Rightarrow> nat
     \<Rightarrow> builder \<Rightarrow> inst list \<Rightarrow> bool" where
  "Inv f bs1 X bs2 pre I post n B cur =
     (bfunc B = splice f bs1 X bs2 (pre @ cur @ I # post) \<and> bpoint B = iref I
      \<and> iref I \<notin> iref ` set (concat (map insts bs1) @ pre) \<and> iref I < n
      \<and> map iref cur = [n ..< n + length cur]
      \<and> fresh_inst (bfunc B) = n + length cur
      \<and> (\<forall>x\<in>set cur. \<forall>v\<in>set (operands (ikind x)). known (iref x) v))"

fun isBinOp :: "ikind \<Rightarrow> bool" where
  "isBinOp (BinOp b v w) = True"
| "isBinOp k = False"

fun isIntToPtr :: "ikind \<Rightarrow> bool" where
  "isIntToPtr (Cast OpIntToPtr v) = True"
| "isIntToPtr k = False"

text \<open>
  The tagging sequence with references from \<open>n\<close> on: the four instructions that make the
  enable mask, the instructions \<open>mid\<close> that compute and shift a dynamic offset (none when
  the offset is a constant), and the three that mask, add and cast back.
\<close>

definition name_prefix :: "string \<Rightarrow> string" where
  "name_prefix nm = (if nm \<noteq> [] then nm @ ''.'' else [])"

definition tag_head :: "nat \<Rightarrow> inst_ref \<Rightarrow> string \<Rightarrow> inst list" where
  "tag_head n g P =
     [\<lparr>iref = n, iname = P @ ''int'', ikind = Cast OpPtrToInt (VInst g)\<rparr>,
      \<lparr>iref = n + 1, iname = P @ ''upperbits'', ikind = BinOp OpLShr (VInst n) (VConstInt 48)\<rparr>,
      \<lparr>iref = n + 2, iname = P @ ''enable.sel'', ikind = BinOp OpAnd (VInst (n + 1)) (VConstInt 1)\<rparr>,
      \<lparr>iref = n + 3, iname = P @ ''enable.bit'', ikind = BinOp OpSub (VConstInt 0) (VInst (n + 2))\<rparr>]"

definition tag_tail :: "nat \<Rightarrow> nat \<Rightarrow> val \<Rightarrow> string \<Rightarrow> inst list" where
  "tag_tail a n Shifted P =
     [\<lparr>iref = a, iname = [], ikind = BinOp OpAnd Shifted (VInst (n + 3))\<rparr>,
      \<lparr>iref = a + 1, iname = P @ ''added'', ikind = BinOp OpAdd (VInst n) (VInst a)\<rparr>,
      \<lparr>iref = a + 2, iname = P @ ''newptr'', ikind = Cast OpIntToPtr (VInst (a + 1))\<rparr>]"

definition tag_seq :: "nat \<Rightarrow> inst_ref \<Rightarrow> string \<Rightarrow> inst list \<Rightarrow> val \<Rightarrow> inst list" where
  "tag_seq n g P mid Shifted =
     tag_head n g P @ mid @ tag_tail (n + 4 + length mid) n Shifted P"

text \<open>
  An instruction with its operands that are the result of \<open>g\<close> replaced by \<open>np\<close>, and the
  function after a rewrite: the new instructions between \<open>pre\<close> and \<open>post\<close> in block
  \<open>X\<close>, every other instruction retargeted.
\<close>

definition retarget :: "inst_ref \<Rightarrow> val \<Rightarrow> inst \<Rightarrow> inst" where
  "retarget g np x = x\<lparr>ikind := map_operands (\<lambda>v. if v = VInst g then np else v) (ikind x)\<rparr>"

definition map_block_insts :: "(inst \<Rightarrow> inst) \<Rightarrow> block \<Rightarrow> block" where
  "map_block_insts h b = b\<lparr>insts := map h (insts b)\<rparr>"

definition tag_result ::
  "func \<Rightarrow> block list \<Rightarrow> block \<Rightarrow> block list \<Rightarrow> inst list \<Rightarrow> inst list \<Rightarrow> inst list
     \<Rightarrow> inst_ref \<Rightarrow> val \<Rightarrow> func" where
  "tag_result f bs1 X bs2 pre new post g np =
     splice f (map (map_block_insts (retarget g np)) bs1) X
       (map (map_block_insts (retarget g np)) bs2)
       (map (retarget g np) pre @ new @ map (retarget g np) post)"

text \<open>
  The instructions of \<open>f'\<close> that \<open>f\<close> did not have: those with a reference that was fresh
  for \<open>f\<close>.
\<close>

definition new_insts :: "func \<Rightarrow> func \<Rightarrow> inst list" where
  "new_insts f f' = filter (\<lambda>x. fresh_inst f \<le> iref x) (all_insts f')"

text \<open>
  The byte offset of a GEP whose indices are all constants, in the spec's words: the sum
  over the indices of the index times its element's byte size, in 64 bits.
\<close>

fun isConstInt :: "val \<Rightarrow> bool" where
  "isConstInt (VConstInt c) = True"
| "isConstInt v = False"

fun const_val :: "val \<Rightarrow> 64 word" where
  "const_val (VConstInt c) = c"
| "const_val v = 0"

definition byte_offset :: "(val \<times> nat) list \<Rightarrow> 64 word" where
  "byte_offset idxs = sum_list (map (\<lambda>(v, sz). const_val v * of_nat sz) idxs)"

text \<open>The users of \<open>g\<close> among a list of instructions.\<close>

definition users_in :: "inst list \<Rightarrow> inst_ref \<Rightarrow> inst_ref list" where
  "users_in L g =
     concat (map (\<lambda>x. map (\<lambda>v. iref x) (filter (\<lambda>v. v = VInst g) (operands (ikind x)))) L)"

section \<open>Describing an edge split\<close>

text \<open>
  What the resolver does to an instruction when it splits the normal edge of the invoke
  \<open>i\<close>: \<open>redirect\<close> is the change \<open>setNormalDest\<close> makes, \<open>rekey_phi\<close> the change the two
  loops make to a PHI node, entry by entry (\<open>rekey\<close>: the value stays, the key \<open>X\<close> becomes
  \<open>B\<close>). The leading PHI nodes of a block are the ones the outer loop reaches.
\<close>

definition rekey :: "block_ref \<Rightarrow> block_ref \<Rightarrow> val \<times> block_ref \<Rightarrow> val \<times> block_ref" where
  "rekey X B e = (fst e, if snd e = X then B else snd e)"

definition rekey_phi :: "block_ref \<Rightarrow> block_ref \<Rightarrow> inst \<Rightarrow> inst" where
  "rekey_phi X B x = (case ikind x of PHI inc \<Rightarrow> x\<lparr>ikind := PHI (map (rekey X B) inc)\<rparr> | _ \<Rightarrow> x)"

definition redirect :: "inst_ref \<Rightarrow> block_ref \<Rightarrow> inst \<Rightarrow> inst" where
  "redirect i B x =
     (if iref x = i
      then (case ikind x of Invoke args n u \<Rightarrow> x\<lparr>ikind := Invoke args B u\<rparr> | _ \<Rightarrow> x)
      else x)"

definition leading_phis :: "inst list \<Rightarrow> inst list" where
  "leading_phis L = takeWhile (\<lambda>x. isPHI (ikind x)) L"

definition rest_insts :: "inst list \<Rightarrow> inst list" where
  "rest_insts L = dropWhile (\<lambda>x. isPHI (ikind x)) L"

fun isInvoke :: "ikind \<Rightarrow> bool" where
  "isInvoke (Invoke args n u) = True"
| "isInvoke k = False"

text \<open>The new block, and the destination after the patch.\<close>

definition new_block :: "func \<Rightarrow> block_ref \<Rightarrow> block" where
  "new_block f T =
     \<lparr>bref = fresh_block f, bname = ''invoke_insert_point'',
      insts = [\<lparr>iref = fresh_inst f, iname = [], ikind = Branch T\<rparr>]\<rparr>"

definition patched_dest :: "func \<Rightarrow> inst_ref \<Rightarrow> block \<Rightarrow> block \<Rightarrow> block" where
  "patched_dest f i X D =
     D\<lparr>insts := map (rekey_phi (bref X) (fresh_block f)) (leading_phis (insts D))
                 @ map (redirect i (fresh_block f)) (rest_insts (insts D))\<rparr>"

text \<open>The edges from one block to \<open>t\<close>: the block's reference, once for each edge.\<close>

definition edges_to :: "block_ref \<Rightarrow> block \<Rightarrow> block_ref list" where
  "edges_to t b =
     concat (map (\<lambda>x. map (\<lambda>s. bref b) (filter (\<lambda>s. s = t) (successors_of (ikind x)))) (insts b))"

section \<open>Example functions\<close>

text \<open>
  One block: a GEP named \<open>a\<close> that steps one 8-byte element from the argument \<open>p\<close>, a use
  of it, and a return.
\<close>

definition ex_fn :: func where
  "ex_fn = \<lparr>fname = ''f'', blocks = [\<lparr>bref = 1, bname = ''entry'', insts = [
     \<lparr>iref = 10, iname = ''a'', ikind = GEP (VArg ''p'') [(VConstInt 1, 8)] False\<rparr>,
     \<lparr>iref = 11, iname = [], ikind = OtherInst [VInst 10]\<rparr>,
     \<lparr>iref = 12, iname = [], ikind = OtherTerm [] []\<rparr>]\<rparr>],
     flinkage = ExternalLinkage, isDeclaration = False, attrs = [CanonPtr]\<rparr>"

text \<open>The same function with another GEP in the place of the first.\<close>

definition ex_with :: "ikind \<Rightarrow> func" where
  "ex_with k = \<lparr>fname = ''f'', blocks = [\<lparr>bref = 1, bname = ''entry'', insts = [
     \<lparr>iref = 10, iname = ''a'', ikind = k\<rparr>,
     \<lparr>iref = 11, iname = [], ikind = OtherInst [VInst 10]\<rparr>,
     \<lparr>iref = 12, iname = [], ikind = OtherTerm [] []\<rparr>]\<rparr>],
     flinkage = ExternalLinkage, isDeclaration = False, attrs = [CanonPtr]\<rparr>"


text \<open>
  An invoke in the entry block, with normal destination \<open>cont\<close> and unwind destination
  \<open>lpad\<close>; the PHI node of \<open>cont\<close> has two entries keyed by the entry block.
\<close>

definition ex_invoke :: func where
  "ex_invoke = \<lparr>fname = ''f'', blocks = [
    \<lparr>bref = 1, bname = ''entry'', insts = [
       \<lparr>iref = 10, iname = ''c'', ikind = Invoke [] 2 3\<rparr>]\<rparr>,
    \<lparr>bref = 2, bname = ''cont'', insts = [
       \<lparr>iref = 11, iname = ''m'', ikind = PHI [(VConstInt 7, 1), (VConstInt 8, 1)]\<rparr>,
       \<lparr>iref = 12, iname = [], ikind = OtherTerm [VInst 11] []\<rparr>]\<rparr>,
    \<lparr>bref = 3, bname = ''lpad'', insts = [
       \<lparr>iref = 13, iname = [], ikind = OtherTerm [] []\<rparr>]\<rparr>],
    flinkage = ExternalLinkage, isDeclaration = False, attrs = [CanonPtr]\<rparr>"

definition ex_invoke_split :: func where
  "ex_invoke_split = \<lparr>fname = ''f'', blocks = [
    \<lparr>bref = 1, bname = ''entry'', insts = [
       \<lparr>iref = 10, iname = ''c'', ikind = Invoke [] 4 3\<rparr>]\<rparr>,
    \<lparr>bref = 4, bname = ''invoke_insert_point'', insts = [
       \<lparr>iref = 14, iname = [], ikind = Branch 2\<rparr>]\<rparr>,
    \<lparr>bref = 2, bname = ''cont'', insts = [
       \<lparr>iref = 11, iname = ''m'', ikind = PHI [(VConstInt 7, 4), (VConstInt 8, 4)]\<rparr>,
       \<lparr>iref = 12, iname = [], ikind = OtherTerm [VInst 11] []\<rparr>]\<rparr>,
    \<lparr>bref = 3, bname = ''lpad'', insts = [
       \<lparr>iref = 13, iname = [], ikind = OtherTerm [] []\<rparr>]\<rparr>],
    flinkage = ExternalLinkage, isDeclaration = False, attrs = [CanonPtr]\<rparr>"

section \<open>Lemmas\<close>

lemma starts_with_nonempty: "starts_with s p \<Longrightarrow> p \<noteq> [] \<Longrightarrow> s \<noteq> []"
  by (cases s; cases p; simp)

lemma inst_refs_flat: "inst_refs f = refs_of (all_insts f)"
  by (simp add: inst_refs_def refs_of_def)

lemma fold_max_Max: "fold max xs (0::nat) = Max (insert 0 (set xs))"
  using Max.set_eq_fold [of 0 xs] by simp

lemma fresh_inst_Max: "fresh_inst f = Suc (Max (insert 0 (set (refs_of (all_insts f)))))"
  by (simp add: fresh_inst_def fold_max_Max inst_refs_flat)

lemma fresh_inst_gt: "r \<in> set (refs_of (all_insts f)) \<Longrightarrow> r < fresh_inst f"
  by (simp add: fresh_inst_Max less_Suc_eq_le)

lemma refs_of_append [simp]: "refs_of (xs @ ys) = refs_of xs @ refs_of ys"
  by (simp add: refs_of_def)

lemma refs_of_Cons:
  "refs_of (x # xs) = iref x # concat (map val_refs (operands (ikind x))) @ refs_of xs"
  by (simp add: refs_of_def)

lemma iref_in_refs_of: "x \<in> set L \<Longrightarrow> iref x \<in> set (refs_of L)"
  by (auto simp: refs_of_def)

lemma operand_in_refs_of:
  "x \<in> set L \<Longrightarrow> v \<in> set (operands (ikind x)) \<Longrightarrow> r \<in> set (val_refs v)
     \<Longrightarrow> r \<in> set (refs_of L)"
  by (auto simp: refs_of_def)

lemma known_mono: "known m v \<Longrightarrow> m \<le> m' \<Longrightarrow> known m' v"
  by (auto simp: known_def)

lemma known_const [simp]: "known m (VConstInt c)"
  by (simp add: known_def)

lemma known_VInst [simp]: "known m (VInst r) = (r < m)"
  by (simp add: known_def)

lemma known_fresh:
  "x \<in> set (all_insts f) \<Longrightarrow> v \<in> set (operands (ikind x)) \<Longrightarrow> known (fresh_inst f) v"
  unfolding known_def using operand_in_refs_of fresh_inst_gt by blast

lemma fresh_inst_step:
  assumes "all_insts f' = pre @ n # post" and "all_insts f = pre @ post"
    and "iref n = fresh_inst f" and "\<forall>v\<in>set (operands (ikind n)). known (fresh_inst f) v"
  shows "fresh_inst f' = Suc (fresh_inst f)"
proof -
  have s: "set (refs_of (all_insts f')) =
             insert (iref n) (set (concat (map val_refs (operands (ikind n)))))
             \<union> set (refs_of (all_insts f))"
    using assms(1,2) by (auto simp: refs_of_Cons)
  have "Max (insert 0 (set (refs_of (all_insts f')))) = fresh_inst f"
  proof (rule Max_eqI)
    show "finite (insert 0 (set (refs_of (all_insts f'))))" by simp
    show "fresh_inst f \<in> insert 0 (set (refs_of (all_insts f')))"
      using s assms(3) by auto
    fix y assume "y \<in> insert 0 (set (refs_of (all_insts f')))"
    then consider "y = 0" | "y = iref n"
      | "y \<in> set (concat (map val_refs (operands (ikind n))))"
      | "y \<in> set (refs_of (all_insts f))" using s by auto
    then show "y \<le> fresh_inst f"
    proof cases
      case 3 then show ?thesis using assms(4) by (auto simp: known_def intro: less_imp_le)
    next
      case 4 then show ?thesis using fresh_inst_gt [of y f] by simp
    qed (simp_all add: assms(3))
  qed
  then show ?thesis by (simp add: fresh_inst_Max)
qed

lemma ins_before_split:
  "iref I = ip \<Longrightarrow> ip \<notin> iref ` set pre \<Longrightarrow> ins_before ip n (pre @ I # post) = pre @ n # I # post"
  by (induction pre) auto

lemma ins_before_blocks_split:
  "ip \<notin> iref ` set (concat (map insts bs1)) \<Longrightarrow> ip \<in> iref ` set (insts X)
   \<Longrightarrow> ins_before_blocks ip n (bs1 @ X # bs2) = bs1 @ X\<lparr>insts := ins_before ip n (insts X)\<rparr> # bs2"
  by (induction bs1) auto

lemma all_insts_splice:
  "all_insts (splice f bs1 X bs2 L) = concat (map insts bs1) @ L @ concat (map insts bs2)"
  by (simp add: all_insts_def splice_def)

lemma insert_before_splice:
  assumes "iref I \<notin> iref ` set (concat (map insts bs1) @ pre)"
  shows "insert_before (iref I) x (splice f bs1 X bs2 (pre @ I # post))
           = splice f bs1 X bs2 (pre @ x # I # post)"
proof -
  have a: "iref I \<notin> iref ` set (concat (map insts bs1))" and b: "iref I \<notin> iref ` set pre"
    using assms by auto
  have c: "iref I \<in> iref ` set (insts (X\<lparr>insts := pre @ I # post\<rparr>))" by simp
  have "ins_before_blocks (iref I) x (bs1 @ X\<lparr>insts := pre @ I # post\<rparr> # bs2)
          = bs1 @ (X\<lparr>insts := pre @ I # post\<rparr>)
                    \<lparr>insts := ins_before (iref I) x (insts (X\<lparr>insts := pre @ I # post\<rparr>))\<rparr> # bs2"
    by (rule ins_before_blocks_split [OF a c])
  moreover have "ins_before (iref I) x (pre @ I # post) = pre @ x # I # post"
    by (rule ins_before_split [OF refl b])
  ultimately show ?thesis
    by (simp add: insert_before_def splice_def)
qed

lemma InvD:
  assumes "Inv f bs1 X bs2 pre I post n B cur"
  shows "bfunc B = splice f bs1 X bs2 (pre @ cur @ I # post)" and "bpoint B = iref I"
    and "iref I \<notin> iref ` set (concat (map insts bs1) @ pre)" and "iref I < n"
    and "map iref cur = [n ..< n + length cur]"
    and "fresh_inst (bfunc B) = n + length cur"
    and "\<forall>x\<in>set cur. \<forall>v\<in>set (operands (ikind x)). known (iref x) v"
  using assms unfolding Inv_def by blast+

lemma Inv_Insert:
  assumes "Inv f bs1 X bs2 pre I post n B cur"
    and "\<forall>v\<in>set (operands k). known (n + length cur) v"
  shows "\<exists>B'. Insert B nm k = (VInst (n + length cur), B')
           \<and> Inv f bs1 X bs2 pre I post n B'
                 (cur @ [\<lparr>iref = n + length cur, iname = nm, ikind = k\<rparr>])"
proof -
  let ?x = "\<lparr>iref = n + length cur, iname = nm, ikind = k\<rparr>"
  let ?f' = "insert_before (bpoint B) ?x (bfunc B)"
  note d = InvD [OF assms(1)]
  have st: "bfunc B = splice f bs1 X bs2 ((pre @ cur) @ I # post)"
    using d(1) by simp
  have "set (map iref cur) = {n ..< n + length cur}" by (simp add: d(5))
  then have notcur: "iref I \<notin> iref ` set cur" using d(4) by auto
  have notpre: "iref I \<notin> iref ` set (concat (map insts bs1) @ (pre @ cur))"
    using d(3) notcur by auto
  have st': "?f' = splice f bs1 X bs2 ((pre @ cur) @ ?x # I # post)"
    unfolding st d(2) by (rule insert_before_splice [OF notpre])
  have a1: "all_insts ?f' = (concat (map insts bs1) @ pre @ cur) @ ?x
                # (I # post @ concat (map insts bs2))"
    by (simp add: st' all_insts_splice)
  have a2: "all_insts (bfunc B) = (concat (map insts bs1) @ pre @ cur)
                @ (I # post @ concat (map insts bs2))"
    by (simp add: st all_insts_splice)
  have a3: "iref ?x = fresh_inst (bfunc B)" by (simp add: d(6))
  have a4: "\<forall>v\<in>set (operands (ikind ?x)). known (fresh_inst (bfunc B)) v"
    using assms(2) by (simp add: d(6))
  have fs: "fresh_inst ?f' = Suc (fresh_inst (bfunc B))"
    by (rule fresh_inst_step [OF a1 a2 a3 a4])
  have "Inv f bs1 X bs2 pre I post n (B\<lparr>bfunc := ?f'\<rparr>) (cur @ [?x])"
    unfolding Inv_def
    using st' fs d assms(2) by auto
  then show ?thesis
    by (simp add: Insert_def Let_def d(6))
qed

lemma CreateBinOp_nonconst:
  "\<not> (\<exists>x y. a = VConstInt x \<and> b = VConstInt y)
   \<Longrightarrow> CreateBinOp op B a b nm = Insert B nm (BinOp op a b)"
  by (cases a; cases b; simp add: CreateBinOp_def)

lemma Inv_CreateBinOp:
  assumes "Inv f bs1 X bs2 pre I post n B cur"
    and "known (n + length cur) a" and "known (n + length cur) b"
  shows "\<exists>v B' ext. CreateBinOp op B a b nm = (v, B')
           \<and> Inv f bs1 X bs2 pre I post n B' (cur @ ext)
           \<and> known (n + length (cur @ ext)) v
           \<and> (\<forall>x\<in>set ext. isBinOp (ikind x))
           \<and> (\<forall>x y. a = VConstInt x \<and> b = VConstInt y
                 \<longrightarrow> ext = [] \<and> v = VConstInt (eval_binop op x y))"
proof (cases "\<exists>x y. a = VConstInt x \<and> b = VConstInt y")
  case True
  then obtain x y where "a = VConstInt x" "b = VConstInt y" by blast
  then have "CreateBinOp op B a b nm = (VConstInt (eval_binop op x y), B)"
    by (simp add: CreateBinOp_def)
  then show ?thesis
    using assms(1) \<open>a = VConstInt x\<close> \<open>b = VConstInt y\<close>
    by (intro exI [of _ "VConstInt (eval_binop op x y)"] exI [of _ B] exI [of _ "[]"]) simp
next
  case False
  let ?x = "\<lparr>iref = n + length cur, iname = nm, ikind = BinOp op a b\<rparr>"
  obtain B' where B': "Insert B nm (BinOp op a b) = (VInst (n + length cur), B')"
    "Inv f bs1 X bs2 pre I post n B' (cur @ [?x])"
    using Inv_Insert [OF assms(1), of "BinOp op a b" nm] assms(2,3) by auto
  show ?thesis
    using B' CreateBinOp_nonconst [OF False, of op B nm] False
    by (intro exI [of _ "VInst (n + length cur)"] exI [of _ B'] exI [of _ "[?x]"]) auto
qed

lemma Inv_emitGEPOffset_loop:
  assumes "Inv f bs1 X bs2 pre I post n B cur"
    and "\<forall>e\<in>set idxs. known (n + length cur) (fst e)"
    and "\<forall>R. Result = Some R \<longrightarrow> known (n + length cur) R"
  shows "\<exists>Res B' ext. emitGEPOffset_loop B nm idxs Result = (Res, B')
           \<and> Inv f bs1 X bs2 pre I post n B' (cur @ ext)
           \<and> (\<forall>R. Res = Some R \<longrightarrow> known (n + length (cur @ ext)) R)
           \<and> (\<forall>x\<in>set ext. isBinOp (ikind x))"
  using assms
proof (induction idxs arbitrary: B cur Result)
  case Nil
  then show ?case
    by (intro exI [of _ Result] exI [of _ B] exI [of _ "[]"]) simp
next
  case (Cons e idxs)
  obtain v sz where e: "e = (v, sz)" by (cases e)
  have kv: "known (n + length cur) v" using Cons.prems(2) e by simp
  obtain Op B1 ext1 where m: "CreateBinOp OpMul B v (VConstInt (of_nat sz)) (nm @ ''.idx'') = (Op, B1)"
    and i1: "Inv f bs1 X bs2 pre I post n B1 (cur @ ext1)"
    and k1: "known (n + length (cur @ ext1)) Op"
    and b1: "\<forall>x\<in>set ext1. isBinOp (ikind x)"
    using Inv_CreateBinOp [OF Cons.prems(1) kv, of "VConstInt (of_nat sz)" OpMul "nm @ ''.idx''"]
    by auto
  have "\<exists>Sum B2 ext2. (case Result of None \<Rightarrow> (Op, B1)
                         | Some R \<Rightarrow> CreateAdd B1 R Op (nm @ ''.offs'')) = (Sum, B2)
          \<and> Inv f bs1 X bs2 pre I post n B2 ((cur @ ext1) @ ext2)
          \<and> known (n + length ((cur @ ext1) @ ext2)) Sum
          \<and> (\<forall>x\<in>set ext2. isBinOp (ikind x))"
  proof (cases Result)
    case None
    then show ?thesis using i1 k1
      by (intro exI [of _ Op] exI [of _ B1] exI [of _ "[]"]) simp
  next
    case (Some R)
    have kR: "known (n + length (cur @ ext1)) R"
      using Cons.prems(3) Some by (auto intro: known_mono)
    show ?thesis
      using Inv_CreateBinOp [OF i1 kR k1, of OpAdd "nm @ ''.offs''"] Some
      by (auto simp: CreateAdd_def)
  qed
  then obtain Sum B2 ext2 where
    a: "(case Result of None \<Rightarrow> (Op, B1)
         | Some R \<Rightarrow> CreateAdd B1 R Op (nm @ ''.offs'')) = (Sum, B2)"
    and i2: "Inv f bs1 X bs2 pre I post n B2 (cur @ ext1 @ ext2)"
    and k2: "known (n + length (cur @ ext1 @ ext2)) Sum"
    and b2: "\<forall>x\<in>set ext2. isBinOp (ikind x)"
    by auto
  have ki: "\<forall>e\<in>set idxs. known (n + length (cur @ ext1 @ ext2)) (fst e)"
    using Cons.prems(2) by (auto intro: known_mono)
  have kS: "\<forall>R. Some Sum = Some R \<longrightarrow> known (n + length (cur @ ext1 @ ext2)) R"
    using k2 by simp
  obtain Res B' ext3 where
    r: "emitGEPOffset_loop B2 nm idxs (Some Sum) = (Res, B')"
    and i3: "Inv f bs1 X bs2 pre I post n B' ((cur @ ext1 @ ext2) @ ext3)"
    and k3: "\<forall>R. Res = Some R \<longrightarrow> known (n + length ((cur @ ext1 @ ext2) @ ext3)) R"
    and b3: "\<forall>x\<in>set ext3. isBinOp (ikind x)"
    using Cons.IH [OF i2 ki kS] by blast
  show ?case
    using m a r i3 k3 b1 b2 b3 e
    by (intro exI [of _ Res] exI [of _ B'] exI [of _ "ext1 @ ext2 @ ext3"])
       (auto simp: CreateMul_def)
qed

lemma Inv_emitGEPOffset:
  assumes "Inv f bs1 X bs2 pre I post n B cur"
    and "\<forall>e\<in>set idxs. known (n + length cur) (fst e)"
  shows "\<exists>v B' ext. emitGEPOffset B nm idxs = (v, B')
           \<and> Inv f bs1 X bs2 pre I post n B' (cur @ ext)
           \<and> known (n + length (cur @ ext)) v
           \<and> (\<forall>x\<in>set ext. isBinOp (ikind x))"
proof -
  obtain Res B' ext where
    r: "emitGEPOffset_loop B nm idxs None = (Res, B')"
    and i: "Inv f bs1 X bs2 pre I post n B' (cur @ ext)"
    and k: "\<forall>R. Res = Some R \<longrightarrow> known (n + length (cur @ ext)) R"
    and b: "\<forall>x\<in>set ext. isBinOp (ikind x)"
    using Inv_emitGEPOffset_loop [OF assms(1,2), of None nm] by auto
  show ?thesis
    using r i k b
    by (cases Res) (auto simp: emitGEPOffset_def)
qed

lemma splice_self:
  "blocks f = bs1 @ X # bs2 \<Longrightarrow> insts X = L \<Longrightarrow> splice f bs1 X bs2 L = f"
  by (auto simp: splice_def)

lemma Inv_init:
  assumes "blocks f = bs1 @ X # bs2" and "insts X = pre @ I # post"
    and "iref I \<notin> iref ` set (concat (map insts bs1) @ pre)"
  shows "Inv f bs1 X bs2 pre I post (fresh_inst f) \<lparr>bfunc = f, bpoint = iref I\<rparr> []"
proof -
  have "I \<in> set (all_insts f)" using assms(1,2) by (simp add: all_insts_def)
  then have "iref I < fresh_inst f" by (intro fresh_inst_gt iref_in_refs_of)
  then show ?thesis
    using assms splice_self [OF assms(1), of "pre @ I # post"] by (simp add: Inv_def)
qed

lemma tag_emit:
  assumes f_eq: "blocks f = bs1 @ X # bs2" "insts X = pre @ I # post"
    and nip: "iref I \<notin> iref ` set (concat (map insts bs1) @ pre)"
    and g: "g < fresh_inst f" and idx: "\<forall>e\<in>set idxs. known (fresh_inst f) (fst e)"
  shows "\<exists>mid Shifted.
           tagGEP f (iref I) g nm idxs =
             fold (\<lambda>U. replaceUsesOfWith U (VInst g) (VInst (fresh_inst f + 6 + length mid)))
               (users f g)
               (splice f bs1 X bs2
                  (pre @ (tag_head (fresh_inst f) g (name_prefix nm) @ mid
                          @ tag_tail (fresh_inst f + 4 + length mid) (fresh_inst f) Shifted
                              (name_prefix nm)) @ I # post))
           \<and> map iref mid = [fresh_inst f + 4 ..< fresh_inst f + 4 + length mid]
           \<and> (\<forall>x\<in>set mid. isBinOp (ikind x)
                  \<and> (\<forall>v\<in>set (operands (ikind x)). known (iref x) v))
           \<and> known (fresh_inst f + 4 + length mid) Shifted
           \<and> (\<forall>c. accumulateConstantOffset idxs 0 = Some c
                  \<longrightarrow> mid = [] \<and> Shifted = VConstInt (push_bit 49 c))"
proof -
  define n where "n = fresh_inst f"
  define P where "P = name_prefix nm"
  define B0 where "B0 = \<lparr>bfunc = f, bpoint = iref I\<rparr>"
  let ?Inv = "Inv f bs1 X bs2 pre I post n"
  have i0: "?Inv B0 []" unfolding n_def B0_def by (rule Inv_init [OF f_eq nip])
  have gn: "g < n" using g by (simp add: n_def)
  define x0 where "x0 = \<lparr>iref = n, iname = P @ ''int'', ikind = Cast OpPtrToInt (VInst g)\<rparr>"
  define x1 where "x1 = \<lparr>iref = n + 1, iname = P @ ''upperbits'',
                          ikind = BinOp OpLShr (VInst n) (VConstInt 48)\<rparr>"
  define x2 where "x2 = \<lparr>iref = n + 2, iname = P @ ''enable.sel'',
                          ikind = BinOp OpAnd (VInst (n + 1)) (VConstInt 1)\<rparr>"
  define x3 where "x3 = \<lparr>iref = n + 3, iname = P @ ''enable.bit'',
                          ikind = BinOp OpSub (VConstInt 0) (VInst (n + 2))\<rparr>"
  obtain B1 where s1: "CreatePtrToInt B0 (VInst g) (P @ ''int'') = (VInst n, B1)"
    and i1: "?Inv B1 [x0]"
    using Inv_Insert [OF i0, of "Cast OpPtrToInt (VInst g)" "P @ ''int''"] gn
    by (auto simp: CreatePtrToInt_def x0_def)
  obtain B2 where s2: "CreateLShr B1 (VInst n) (VConstInt 48) (P @ ''upperbits'') = (VInst (n + 1), B2)"
    and i2: "?Inv B2 [x0, x1]"
    using Inv_Insert [OF i1, of "BinOp OpLShr (VInst n) (VConstInt 48)" "P @ ''upperbits''"]
    by (auto simp: CreateLShr_def CreateBinOp_nonconst x1_def)
  obtain B3 where s3: "CreateAnd B2 (VInst (n + 1)) (VConstInt 1) (P @ ''enable.sel'') = (VInst (n + 2), B3)"
    and i3: "?Inv B3 [x0, x1, x2]"
    using Inv_Insert [OF i2, of "BinOp OpAnd (VInst (n + 1)) (VConstInt 1)" "P @ ''enable.sel''"]
    by (auto simp: CreateAnd_def CreateBinOp_nonconst x2_def)
  obtain B4 where s4: "CreateNeg B3 (VInst (n + 2)) (P @ ''enable.bit'') = (VInst (n + 3), B4)"
    and i4: "?Inv B4 [x0, x1, x2, x3]"
    using Inv_Insert [OF i3, of "BinOp OpSub (VConstInt 0) (VInst (n + 2))" "P @ ''enable.bit''"]
    by (auto simp: CreateNeg_def CreateBinOp_nonconst x3_def numeral_3_eq_3)
  let ?h = "[x0, x1, x2, x3]"
  have "\<exists>Diff B5 extD.
          (case accumulateConstantOffset idxs 0 of
             Some ConstOffset \<Rightarrow> (VConstInt ConstOffset, B4)
           | None \<Rightarrow> emitGEPOffset B4 nm idxs) = (Diff, B5)
          \<and> ?Inv B5 (?h @ extD) \<and> known (n + length (?h @ extD)) Diff
          \<and> (\<forall>x\<in>set extD. isBinOp (ikind x))
          \<and> (\<forall>c. accumulateConstantOffset idxs 0 = Some c \<longrightarrow> extD = [] \<and> Diff = VConstInt c)"
  proof (cases "accumulateConstantOffset idxs 0")
    case None
    have ki: "\<forall>e\<in>set idxs. known (n + length ?h) (fst e)"
      using idx by (auto simp: n_def intro: known_mono)
    show ?thesis
      using Inv_emitGEPOffset [OF i4 ki, of nm] None by auto
  next
    case (Some c)
    then show ?thesis using i4
      by (intro exI [of _ "VConstInt c"] exI [of _ B4] exI [of _ "[]"]) simp
  qed
  then obtain Diff B5 extD where
    s5: "(case accumulateConstantOffset idxs 0 of
             Some ConstOffset \<Rightarrow> (VConstInt ConstOffset, B4)
           | None \<Rightarrow> emitGEPOffset B4 nm idxs) = (Diff, B5)"
    and i5: "?Inv B5 (?h @ extD)" and k5: "known (n + length (?h @ extD)) Diff"
    and b5: "\<forall>x\<in>set extD. isBinOp (ikind x)"
    and c5: "\<forall>c. accumulateConstantOffset idxs 0 = Some c \<longrightarrow> extD = [] \<and> Diff = VConstInt c"
    by blast
  obtain Shifted B6 extS where
    s6: "CreateShl B5 Diff (VConstInt 49) (P @ ''shifted'') = (Shifted, B6)"
    and i6: "?Inv B6 ((?h @ extD) @ extS)"
    and k6: "known (n + length ((?h @ extD) @ extS)) Shifted"
    and b6: "\<forall>x\<in>set extS. isBinOp (ikind x)"
    and c6: "\<forall>x y. Diff = VConstInt x \<and> VConstInt 49 = VConstInt y
               \<longrightarrow> extS = [] \<and> Shifted = VConstInt (eval_binop OpShl x y)"
    using Inv_CreateBinOp [OF i5 k5, of "VConstInt 49" OpShl "P @ ''shifted''"]
    by (auto simp: CreateShl_def)
  define mid where "mid = extD @ extS"
  define a where "a = n + 4 + length mid"
  have i6': "?Inv B6 (?h @ mid)" using i6 by (simp add: mid_def)
  have l6: "n + length ((?h @ extD) @ extS) = a" by (simp add: a_def mid_def)
  have k6': "known a Shifted" using k6 unfolding l6 .
  have la: "n + length (?h @ mid) = a" by (simp add: a_def)
  define x7 where "x7 = \<lparr>iref = a, iname = [], ikind = BinOp OpAnd Shifted (VInst (n + 3))\<rparr>"
  define x8 where "x8 = \<lparr>iref = a + 1, iname = P @ ''added'', ikind = BinOp OpAdd (VInst n) (VInst a)\<rparr>"
  define x9 where "x9 = \<lparr>iref = a + 2, iname = P @ ''newptr'', ikind = Cast OpIntToPtr (VInst (a + 1))\<rparr>"
  have n3a: "n + 3 < a" by (simp add: a_def)
  obtain B7 where s7: "CreateAnd B6 Shifted (VInst (n + 3)) [] = (VInst a, B7)"
    and i7: "?Inv B7 ((?h @ mid) @ [x7])"
    using Inv_Insert [OF i6', of "BinOp OpAnd Shifted (VInst (n + 3))" "[]"] k6' n3a
    unfolding la
    by (auto simp: CreateAnd_def CreateBinOp_nonconst x7_def)
  have l7: "n + length ((?h @ mid) @ [x7]) = a + 1" by (simp add: a_def)
  obtain B8 where s8: "CreateAdd B7 (VInst n) (VInst a) (P @ ''added'') = (VInst (a + 1), B8)"
    and i8: "?Inv B8 (((?h @ mid) @ [x7]) @ [x8])"
    using Inv_Insert [OF i7, of "BinOp OpAdd (VInst n) (VInst a)" "P @ ''added''"]
    unfolding l7
    by (auto simp: CreateAdd_def CreateBinOp_nonconst x8_def a_def)
  have l8: "n + length (((?h @ mid) @ [x7]) @ [x8]) = a + 2" by (simp add: a_def)
  obtain B9 where s9: "CreateIntToPtr B8 (VInst (a + 1)) (P @ ''newptr'') = (VInst (a + 2), B9)"
    and i9: "?Inv B9 ((((?h @ mid) @ [x7]) @ [x8]) @ [x9])"
    using Inv_Insert [OF i8, of "Cast OpIntToPtr (VInst (a + 1))" "P @ ''newptr''"]
    unfolding l8
    by (auto simp: CreateIntToPtr_def x9_def)
  have cur: "(((?h @ mid) @ [x7]) @ [x8]) @ [x9] = tag_head n g P @ mid @ tag_tail a n Shifted P"
    by (simp add: tag_head_def tag_tail_def x0_def x1_def x2_def x3_def x7_def x8_def x9_def)
  have fin: "bfunc B9 = splice f bs1 X bs2 (pre @ (tag_head n g P @ mid @ tag_tail a n Shifted P) @ I # post)"
    using InvD(1) [OF i9] unfolding cur by simp
  have tg: "tagGEP f (iref I) g nm idxs =
              fold (\<lambda>U. replaceUsesOfWith U (VInst g) (VInst (a + 2))) (users f g) (bfunc B9)"
    using s1 s2 s3 s4 s5 s6 s7 s8 s9
    by (simp add: tagGEP_def Let_def P_def [symmetric, unfolded name_prefix_def] B0_def [symmetric])
  have refs: "map iref (?h @ mid) = [n ..< n + length (?h @ mid)]" by (rule InvD(5) [OF i6'])
  have lh: "n + length (?h @ mid) = n + 4 + length mid" by simp
  have "map iref mid = drop 4 (map iref (?h @ mid))" by simp
  also have "\<dots> = drop 4 [n ..< n + 4 + length mid]" by (simp only: refs lh)
  also have "\<dots> = [n + 4 ..< n + 4 + length mid]" by (rule drop_upt)
  finally have rm: "map iref mid = [n + 4 ..< n + 4 + length mid]" .
  have om: "\<forall>x\<in>set mid. isBinOp (ikind x) \<and> (\<forall>v\<in>set (operands (ikind x)). known (iref x) v)"
    using InvD(7) [OF i6'] b5 b6 by (auto simp: mid_def)
  have cc: "\<forall>c. accumulateConstantOffset idxs 0 = Some c
                  \<longrightarrow> mid = [] \<and> Shifted = VConstInt (push_bit 49 c)"
    using c5 c6 by (auto simp: mid_def)
  show ?thesis
    apply (rule exI [of _ mid], rule exI [of _ Shifted])
    using tg fin rm om k6' cc
    by (simp add: n_def [symmetric] P_def [symmetric] a_def add.commute add.left_commute)
qed

lemma map_operands_comp: "map_operands h (map_operands k c) = map_operands (h \<circ> k) c"
  by (cases c) (auto simp: comp_def)

lemma map_fst_cong:
  "(\<And>v. v \<in> fst ` set xs \<Longrightarrow> h v = k v)
   \<Longrightarrow> map (\<lambda>(v, y). (h v, y)) xs = map (\<lambda>(v, y). (k v, y)) xs"
  by (induction xs) auto

lemma map_operands_cong_set:
  assumes "\<And>v. v \<in> set (operands c) \<Longrightarrow> h v = k v"
  shows "map_operands h c = map_operands k c"
proof (cases c)
  case (GEP p idxs vec)
  have "map (\<lambda>(v, y). (h v, y)) idxs = map (\<lambda>(v, y). (k v, y)) idxs"
    by (rule map_fst_cong) (use assms GEP in auto)
  then show ?thesis using assms GEP by simp
next
  case (PHI inc)
  have "map (\<lambda>(v, y). (h v, y)) inc = map (\<lambda>(v, y). (k v, y)) inc"
    by (rule map_fst_cong) (use assms PHI in auto)
  then show ?thesis using PHI by simp
qed (use assms in auto)

lemma map_operands_id: "map_operands (\<lambda>v. v) c = c"
  by (cases c) auto

lemma map_operands_ident: "(\<And>v. v \<in> set (operands c) \<Longrightarrow> h v = v) \<Longrightarrow> map_operands h c = c"
  using map_operands_cong_set [of c h "\<lambda>v. v"] by (simp add: map_operands_id)

lemma operands_map_operands: "operands (map_operands h c) = map h (operands c)"
  by (cases c) (auto simp: comp_def)

lemma map_insts_map_insts: "map_insts h (map_insts k f) = map_insts (h \<circ> k) f"
  by (simp add: map_insts_def comp_def)

lemma subst_val_idem:
  "(\<lambda>v. if v = a then b else v) \<circ> (\<lambda>v. if v = a then b else v) = (\<lambda>v. if v = a then b else (v::val))"
  by (rule ext) auto

lemma fold_replaceUsesOfWith:
  "fold (\<lambda>U. replaceUsesOfWith U a b) us f =
     map_insts (\<lambda>x. if iref x \<in> set us
                     then x\<lparr>ikind := map_operands (\<lambda>v. if v = a then b else v) (ikind x)\<rparr>
                     else x) f"
proof (induction us arbitrary: f)
  case Nil
  show ?case by (simp add: map_insts_def)
next
  case (Cons u us)
  have "(\<lambda>x. if iref x \<in> set us
              then x\<lparr>ikind := map_operands (\<lambda>v. if v = a then b else v) (ikind x)\<rparr> else x)
          \<circ> (\<lambda>x. if iref x = u
              then x\<lparr>ikind := map_operands (\<lambda>v. if v = a then b else v) (ikind x)\<rparr> else x)
        = (\<lambda>x. if iref x \<in> set (u # us)
              then x\<lparr>ikind := map_operands (\<lambda>v. if v = a then b else v) (ikind x)\<rparr> else x)"
    by (rule ext) (simp add: map_operands_comp subst_val_idem)
  note cmp = this
  have c: "map_insts (\<lambda>x. if iref x \<in> set us
              then x\<lparr>ikind := map_operands (\<lambda>v. if v = a then b else v) (ikind x)\<rparr> else x)
            (replaceUsesOfWith u a b f)
          = map_insts (\<lambda>x. if iref x \<in> set (u # us)
              then x\<lparr>ikind := map_operands (\<lambda>v. if v = a then b else v) (ikind x)\<rparr> else x) f"
    by (simp only: replaceUsesOfWith_def map_insts_map_insts cmp)
  have "fold (\<lambda>U. replaceUsesOfWith U a b) (u # us) f
          = fold (\<lambda>U. replaceUsesOfWith U a b) us (replaceUsesOfWith u a b f)" by simp
  also have "\<dots> = map_insts (\<lambda>x. if iref x \<in> set us
              then x\<lparr>ikind := map_operands (\<lambda>v. if v = a then b else v) (ikind x)\<rparr> else x)
            (replaceUsesOfWith u a b f)" by (rule Cons.IH)
  finally show ?case using c by simp
qed

lemma map_insts_splice:
  "map_insts h (splice f bs1 X bs2 L) =
     splice f (map (map_block_insts h) bs1) X (map (map_block_insts h) bs2) (map h L)"
  by (simp add: map_insts_def splice_def map_block_insts_def)

lemma map_insts_cong:
  assumes "\<And>x. x \<in> set (all_insts f) \<Longrightarrow> h x = k x"
  shows "map_insts h f = map_insts k f"
proof -
  have "map (\<lambda>b. b\<lparr>insts := map h (insts b)\<rparr>) (blocks f)
          = map (\<lambda>b. b\<lparr>insts := map k (insts b)\<rparr>) (blocks f)"
  proof (rule map_cong [OF refl])
    fix b assume "b \<in> set (blocks f)"
    then have "map h (insts b) = map k (insts b)"
      using assms by (intro map_cong [OF refl]) (auto simp: all_insts_def)
    then show "b\<lparr>insts := map h (insts b)\<rparr> = b\<lparr>insts := map k (insts b)\<rparr>" by simp
  qed
  then show ?thesis by (simp add: map_insts_def)
qed

lemma users_iff:
  "u \<in> set (users f g) \<longleftrightarrow> (\<exists>x\<in>set (all_insts f). iref x = u \<and> VInst g \<in> set (operands (ikind x)))"
  by (auto simp: users_def)

lemma retarget_simps [simp]: "iref (retarget g np x) = iref x" "iname (retarget g np x) = iname x"
  "ikind (retarget g np x) = map_operands (\<lambda>v. if v = VInst g then np else v) (ikind x)"
  by (simp_all add: retarget_def)

lemma retarget_ident:
  assumes "VInst g \<notin> set (operands (ikind x))"
  shows "retarget g np x = x"
proof -
  have "map_operands (\<lambda>v. if v = VInst g then np else v) (ikind x) = ikind x"
    by (rule map_operands_ident) (use assms in auto)
  then show ?thesis by (simp add: retarget_def)
qed

lemma lookup_inst_split:
  "lookup_inst i xs = Some G \<Longrightarrow> \<exists>p q. xs = p @ G # q \<and> iref G = i \<and> i \<notin> iref ` set p"
proof (induction xs)
  case Nil
  then show ?case by simp
next
  case (Cons x xs)
  show ?case
  proof (cases "iref x = i")
    case True
    then show ?thesis using Cons.prems by (intro exI [of _ "[]"] exI [of _ xs]) simp
  next
    case False
    then obtain p q where "xs = p @ G # q" "iref G = i" "i \<notin> iref ` set p"
      using Cons by auto
    then show ?thesis using False
      by (intro exI [of _ "x # p"] exI [of _ q]) auto
  qed
qed

lemma lookup_inst_None: "lookup_inst i xs = None \<Longrightarrow> i \<notin> iref ` set xs"
  by (induction xs) (auto split: if_splits)

lemma find_in_blocks_split:
  "find_in_blocks i bs = Some (X, G) \<Longrightarrow>
     \<exists>bs1 bs2 p q. bs = bs1 @ X # bs2 \<and> insts X = p @ G # q \<and> iref G = i
        \<and> i \<notin> iref ` set p \<and> i \<notin> iref ` set (concat (map insts bs1))"
proof (induction bs)
  case Nil
  then show ?case by simp
next
  case (Cons b bs)
  show ?case
  proof (cases "lookup_inst i (insts b)")
    case None
    then have "find_in_blocks i bs = Some (X, G)" using Cons.prems by simp
    then obtain bs1 bs2 p q where "bs = bs1 @ X # bs2" "insts X = p @ G # q" "iref G = i"
      "i \<notin> iref ` set p" "i \<notin> iref ` set (concat (map insts bs1))"
      using Cons.IH by blast
    then show ?thesis using lookup_inst_None [OF None]
      by (intro exI [of _ "b # bs1"] exI [of _ bs2] exI [of _ p] exI [of _ q]) auto
  next
    case (Some x)
    then have "b = X" "x = G" using Cons.prems by simp_all
    then obtain p q where "insts X = p @ G # q" "iref G = i" "i \<notin> iref ` set p"
      using lookup_inst_split Some by blast
    then show ?thesis using \<open>b = X\<close>
      by (intro exI [of _ "[]"] exI [of _ bs] exI [of _ p] exI [of _ q]) auto
  qed
qed

lemma next_inst_split:
  "i \<notin> iref ` set p \<Longrightarrow> iref G = i \<Longrightarrow>
     next_inst i (p @ G # q) = (case q of [] \<Rightarrow> None | I # r \<Rightarrow> Some (iref I))"
proof (induction p)
  case Nil
  then show ?case by (cases q) auto
next
  case (Cons x p)
  then show ?case by (cases p) auto
qed

lemma isGEP_not_term: "isGEP k \<Longrightarrow> \<not> isTerminator k"
  by (cases k) auto

lemma gep_position:
  assumes "distinct_insts f" and "terminated f"
    and "find_inst f g = Some (X, G)" and "isGEP (ikind G)"
  shows "\<exists>bs1 bs2 p I q. blocks f = bs1 @ X # bs2 \<and> insts X = (p @ [G]) @ I # q \<and> iref G = g
           \<and> iref I \<notin> iref ` set (concat (map insts bs1) @ (p @ [G]))
           \<and> next_inst g (insts X) = Some (iref I)"
proof -
  obtain bs1 bs2 p r where d: "blocks f = bs1 @ X # bs2" "insts X = p @ G # r" "iref G = g"
    "g \<notin> iref ` set p" "g \<notin> iref ` set (concat (map insts bs1))"
    using find_in_blocks_split assms(3) unfolding find_inst_def by blast
  have "insts X \<noteq> [] \<and> isTerminator (ikind (last (insts X)))"
    using assms(2) d(1) by (simp add: terminated_def)
  then have "r \<noteq> []" using d(2) assms(4) isGEP_not_term by (cases r) auto
  then obtain I q where r: "r = I # q" by (cases r) auto
  have "distinct (map iref (concat (map insts bs1) @ p @ G # I # q @ concat (map insts bs2)))"
    using assms(1) d(1,2) r by (simp add: distinct_insts_def all_insts_def)
  then have "iref I \<notin> iref ` set (concat (map insts bs1) @ (p @ [G]))"
    by auto
  moreover have "next_inst g (insts X) = Some (iref I)"
    using next_inst_split [OF d(4,3), of r] d(2) r by simp
  ultimately show ?thesis using d r by auto
qed

lemma users_lt_fresh: "u \<in> set (users f g) \<Longrightarrow> u < fresh_inst f"
  unfolding users_iff using fresh_inst_gt iref_in_refs_of by blast

lemma cond_retarget_old:
  assumes "x \<in> set (all_insts f)"
  shows "(if iref x \<in> set (users f g)
          then x\<lparr>ikind := map_operands (\<lambda>v. if v = VInst g then np else v) (ikind x)\<rparr>
          else x) = retarget g np x"
proof (cases "iref x \<in> set (users f g)")
  case True
  then show ?thesis by (simp add: retarget_def)
next
  case False
  then have "VInst g \<notin> set (operands (ikind x))" using assms users_iff by blast
  then show ?thesis using False by (simp add: retarget_ident)
qed

lemma tag_seq_refs:
  assumes "map iref mid = [n + 4 ..< n + 4 + length mid]"
  shows "map iref (tag_seq n g P mid Shifted) = [n ..< n + 7 + length mid]"
proof -
  have e1: "n + 7 + length mid = n + 4 + (length mid + 3)" by simp
  have e2: "n + 4 + (length mid + 3) = n + 4 + length mid + 3" by simp
  have "[n ..< n + 4 + (length mid + 3)] = [n ..< n + 4] @ [n + 4 ..< n + 4 + (length mid + 3)]"
    by (rule upt_add_eq_append) simp
  moreover have "[n + 4 ..< n + 4 + length mid + 3]
                   = [n + 4 ..< n + 4 + length mid] @ [n + 4 + length mid ..< n + 4 + length mid + 3]"
    by (rule upt_add_eq_append) simp
  ultimately have "[n ..< n + 7 + length mid] = [n ..< n + 4] @ [n + 4 ..< n + 4 + length mid]
          @ [n + 4 + length mid ..< n + 4 + length mid + 3]"
    by (simp only: e1 e2)
  moreover have "[n ..< n + 4] = [n, n + 1, n + 2, n + 3]"
    by (simp add: upt_rec numeral_eq_Suc)
  moreover have "[n + 4 + length mid ..< n + 4 + length mid + 3]
                   = [n + 4 + length mid, n + 4 + length mid + 1, n + 4 + length mid + 2]"
    by (simp add: upt_rec numeral_eq_Suc)
  ultimately show ?thesis
    using assms by (simp add: tag_seq_def tag_head_def tag_tail_def)
qed

lemma map_blocks_cong:
  assumes "\<And>x. x \<in> set (concat (map insts bs)) \<Longrightarrow> h x = k x"
  shows "map (map_block_insts h) bs = map (map_block_insts k) bs"
proof (rule map_cong [OF refl])
  fix b assume "b \<in> set bs"
  then have "map h (insts b) = map k (insts b)"
    using assms by (intro map_cong [OF refl]) auto
  then show "map_block_insts h b = map_block_insts k b" by (simp add: map_block_insts_def)
qed

lemma getInsertPointAfter_GEP:
  assumes "find_inst f g = Some (X, G)" and "isGEP (ikind G)"
    and "next_inst g (insts X) = Some ip"
  shows "getInsertPointAfter f g = Some (Inr (f, ip))"
  using assms by (cases "ikind G") (simp_all add: getInsertPointAfter_def)

lemma body_rewrites:
  assumes "distinct_insts f" and "terminated f"
    and "find_inst f g = Some (X, G)" and "ikind G = GEP SrcPtr idxs vec"
    and "\<not> hasAllZeroIndices idxs" and "\<not> isVtableGep f SrcPtr idxs" and "\<not> vec"
  shows "\<exists>bs1 bs2 p I q mid Shifted.
           blocks f = bs1 @ X # bs2 \<and> insts X = p @ G # I # q \<and> iref G = g
           \<and> runOnFunc_body f g =
               Some (Inr (tag_result f bs1 X bs2 (p @ [G])
                            (tag_seq (fresh_inst f) g (name_prefix (iname G)) mid Shifted)
                            (I # q) g (VInst (fresh_inst f + 6 + length mid))))
           \<and> map iref mid = [fresh_inst f + 4 ..< fresh_inst f + 4 + length mid]
           \<and> (\<forall>x\<in>set mid. isBinOp (ikind x)
                  \<and> (\<forall>v\<in>set (operands (ikind x)). known (iref x) v))
           \<and> known (fresh_inst f + 4 + length mid) Shifted
           \<and> (\<forall>c. accumulateConstantOffset idxs 0 = Some c
                  \<longrightarrow> mid = [] \<and> Shifted = VConstInt (push_bit 49 c))"
proof -
  have gep: "isGEP (ikind G)" using assms(4) by simp
  obtain bs1 bs2 p I q where d: "blocks f = bs1 @ X # bs2" "insts X = (p @ [G]) @ I # q"
    "iref G = g" "iref I \<notin> iref ` set (concat (map insts bs1) @ (p @ [G]))"
    "next_inst g (insts X) = Some (iref I)"
    using gep_position [OF assms(1,2,3) gep] by blast
  have ip: "getInsertPointAfter f g = Some (Inr (f, iref I))"
    by (rule getInsertPointAfter_GEP [OF assms(3) gep d(5)])
  have Gin: "G \<in> set (all_insts f)" using d(1,2) by (simp add: all_insts_def)
  have gl: "g < fresh_inst f" using Gin d(3) fresh_inst_gt iref_in_refs_of by blast
  have ki: "\<forall>e\<in>set idxs. known (fresh_inst f) (fst e)"
    using known_fresh [OF Gin] assms(4) by simp
  define n where "n = fresh_inst f"
  define P where "P = name_prefix (iname G)"
  obtain mid Shifted where
    t: "tagGEP f (iref I) g (iname G) idxs =
          fold (\<lambda>U. replaceUsesOfWith U (VInst g) (VInst (n + 6 + length mid))) (users f g)
            (splice f bs1 X bs2
               ((p @ [G]) @ (tag_head n g P @ mid @ tag_tail (n + 4 + length mid) n Shifted P)
                  @ I # q))"
    and m: "map iref mid = [n + 4 ..< n + 4 + length mid]"
       "\<forall>x\<in>set mid. isBinOp (ikind x) \<and> (\<forall>v\<in>set (operands (ikind x)). known (iref x) v)"
       "known (n + 4 + length mid) Shifted"
       "\<forall>c. accumulateConstantOffset idxs 0 = Some c
              \<longrightarrow> mid = [] \<and> Shifted = VConstInt (push_bit 49 c)"
    using tag_emit [OF d(1,2,4) gl ki, of "iname G"] unfolding n_def P_def by blast
  define np where "np = VInst (n + 6 + length mid)"
  define new where "new = tag_seq n g P mid Shifted"
  let ?c = "\<lambda>x. if iref x \<in> set (users f g)
                 then x\<lparr>ikind := map_operands (\<lambda>v. if v = VInst g then np else v) (ikind x)\<rparr>
                 else x"
  have old: "\<And>x. x \<in> set (all_insts f) \<Longrightarrow> ?c x = retarget g np x"
    by (rule cond_retarget_old)
  have refs: "map iref new = [n ..< n + 7 + length mid]"
    unfolding new_def by (rule tag_seq_refs [OF m(1)])
  have newc: "map ?c new = new"
  proof (rule map_idI)
    fix x assume "x \<in> set new"
    then have "iref x \<in> set (map iref new)" by simp
    then have "n \<le> iref x" unfolding refs by simp
    then have "iref x \<notin> set (users f g)" using users_lt_fresh [of "iref x" f g] n_def by auto
    then show "?c x = x" by simp
  qed
  have b1: "map (map_block_insts ?c) bs1 = map (map_block_insts (retarget g np)) bs1"
    by (rule map_blocks_cong, rule old) (use d(1) in \<open>auto simp: all_insts_def\<close>)
  have b2: "map (map_block_insts ?c) bs2 = map (map_block_insts (retarget g np)) bs2"
    by (rule map_blocks_cong, rule old) (use d(1) in \<open>auto simp: all_insts_def\<close>)
  have l1: "map ?c (p @ [G]) = map (retarget g np) (p @ [G])"
    by (rule map_cong [OF refl], rule old) (use d(1,2) in \<open>auto simp: all_insts_def\<close>)
  have l2: "map ?c (I # q) = map (retarget g np) (I # q)"
    by (rule map_cong [OF refl], rule old) (use d(1,2) in \<open>auto simp: all_insts_def\<close>)
  have "tagGEP f (iref I) g (iname G) idxs =
          map_insts ?c (splice f bs1 X bs2 ((p @ [G]) @ new @ I # q))"
    unfolding t fold_replaceUsesOfWith np_def new_def tag_seq_def ..
  also have "\<dots> = splice f (map (map_block_insts ?c) bs1) X (map (map_block_insts ?c) bs2)
                      (map ?c (p @ [G]) @ map ?c new @ map ?c (I # q))"
    by (simp only: map_insts_splice map_append)
  also have "\<dots> = tag_result f bs1 X bs2 (p @ [G]) new (I # q) g np"
    by (simp only: b1 b2 l1 l2 newc tag_result_def)
  finally have r: "tagGEP f (iref I) g (iname G) idxs
                     = tag_result f bs1 X bs2 (p @ [G]) new (I # q) g np" .
  have "runOnFunc_body f g = Some (Inr (tag_result f bs1 X bs2 (p @ [G]) new (I # q) g np))"
    using assms(3-7) ip r by (simp add: runOnFunc_body_def)
  then show ?thesis
    using d(1,2,3) m unfolding new_def np_def n_def P_def
    by (intro exI [of _ bs1] exI [of _ bs2] exI [of _ p] exI [of _ I] exI [of _ q]
          exI [of _ mid] exI [of _ Shifted]) simp
qed

lemma concat_map_block_insts:
  "concat (map (insts \<circ> map_block_insts h) bs) = map h (concat (map insts bs))"
  by (induction bs) (simp_all add: map_block_insts_def)

lemma all_insts_tag_result:
  "all_insts (tag_result f bs1 X bs2 pre new post g np) =
     map (retarget g np) (concat (map insts bs1)) @ map (retarget g np) pre @ new
     @ map (retarget g np) post @ map (retarget g np) (concat (map insts bs2))"
  by (simp add: tag_result_def all_insts_splice concat_map_block_insts)

lemma filter_fresh_old:
  assumes "set L \<subseteq> set (all_insts f)"
  shows "filter (\<lambda>x. fresh_inst f \<le> iref x) (map (retarget g np) L) = []"
proof -
  have "\<forall>x\<in>set L. iref x < fresh_inst f"
    using assms fresh_inst_gt iref_in_refs_of by blast
  then show ?thesis by (auto simp: filter_empty_conv)
qed

lemma new_insts_tag_result:
  assumes "blocks f = bs1 @ X # bs2" and "insts X = pre @ post"
    and "map iref new = [fresh_inst f ..< fresh_inst f + k]"
  shows "new_insts f (tag_result f bs1 X bs2 pre new post g np) = new"
proof -
  have s: "set (concat (map insts bs1)) \<subseteq> set (all_insts f)" "set pre \<subseteq> set (all_insts f)"
    "set post \<subseteq> set (all_insts f)" "set (concat (map insts bs2)) \<subseteq> set (all_insts f)"
    using assms(1,2) by (auto simp: all_insts_def)
  have "\<And>x. x \<in> set new \<Longrightarrow> fresh_inst f \<le> iref x"
  proof -
    fix x assume "x \<in> set new"
    then have "iref x \<in> set (map iref new)" by simp
    then show "fresh_inst f \<le> iref x" unfolding assms(3) by simp
  qed
  then have "filter (\<lambda>x. fresh_inst f \<le> iref x) new = new" by (simp add: filter_id_conv)
  then show ?thesis
    by (simp add: new_insts_def all_insts_tag_result filter_fresh_old [OF s(1)]
        filter_fresh_old [OF s(2)] filter_fresh_old [OF s(3)] filter_fresh_old [OF s(4)])
qed

lemma exec_append: "exec s (xs @ ys) = exec (exec s xs) ys"
  by (induction xs arbitrary: s) simp_all

lemma exec_inst_frame: "w \<noteq> VInst (iref x) \<Longrightarrow> exec_inst s x w = s w"
  by (cases "ikind x") (simp_all add: exec_inst_def)

lemma exec_frame: "w \<notin> VInst ` iref ` set xs \<Longrightarrow> exec s xs w = s w"
  by (induction xs arbitrary: s) (simp_all add: exec_inst_frame)

lemma enable_mask: "(0::64 word) - (drop_bit 48 p AND 1) = (if bit p 48 then - 1 else 0)"
  by (simp add: and_one_eq bit_iff_odd_drop_bit mod_2_eq_odd)

lemma exec_tag_head:
  assumes "g < n"
  shows "exec s (tag_head n g P) (VInst n) = s (VInst g)"
    and "exec s (tag_head n g P) (VInst (n + 3)) = (if bit (s (VInst g)) 48 then - 1 else 0)"
  using assms enable_mask [of "s (VInst g)"]
  by (simp_all add: tag_head_def exec_inst_def)

lemma exec_tag_tail:
  assumes "n + 3 < a"
  shows "exec s (tag_tail a n Shifted P) (VInst (a + 2))
           = s (VInst n) + (eval s Shifted AND s (VInst (n + 3)))"
  using assms by (simp add: tag_tail_def exec_inst_def)

lemma exec_tag_seq:
  assumes "g < n" and "map iref mid = [n + 4 ..< n + 4 + length mid]"
  shows "exec s (tag_seq n g P mid Shifted) (VInst (n + 6 + length mid))
           = s (VInst g)
             + (eval (exec (exec s (tag_head n g P)) mid) Shifted
                AND (if bit (s (VInst g)) 48 then - 1 else 0))"
proof -
  define s1 where "s1 = exec s (tag_head n g P)"
  define s2 where "s2 = exec s1 mid"
  have r: "iref ` set mid = {n + 4 ..< n + 4 + length mid}"
    using assms(2) by (metis list.set_map set_upt)
  have f1: "s2 (VInst n) = s1 (VInst n)" unfolding s2_def
    by (rule exec_frame) (use r in auto)
  have f2: "s2 (VInst (n + 3)) = s1 (VInst (n + 3))" unfolding s2_def
    by (rule exec_frame) (use r in auto)
  have e: "n + 6 + length mid = n + 4 + length mid + 2" by simp
  have "exec s (tag_seq n g P mid Shifted) (VInst (n + 6 + length mid))
          = exec s2 (tag_tail (n + 4 + length mid) n Shifted P) (VInst (n + 4 + length mid + 2))"
    unfolding e by (simp add: tag_seq_def exec_append s1_def s2_def)
  also have "\<dots> = s2 (VInst n) + (eval s2 Shifted AND s2 (VInst (n + 3)))"
    by (rule exec_tag_tail) simp
  also have "\<dots> = s1 (VInst n) + (eval s2 Shifted AND s1 (VInst (n + 3)))"
    by (simp only: f1 f2)
  also have "s1 (VInst n) = s (VInst g)"
    unfolding s1_def by (rule exec_tag_head(1) [OF assms(1)])
  also have "s1 (VInst (n + 3)) = (if bit (s (VInst g)) 48 then - 1 else 0)"
    unfolding s1_def by (rule exec_tag_head(2) [OF assms(1)])
  finally show ?thesis unfolding s2_def s1_def .
qed

lemma last_tag_seq: "iref (last (tag_seq n g P mid Shifted)) = n + 6 + length mid"
  by (simp add: tag_seq_def tag_tail_def)

lemma find_inst_lt_fresh: "find_inst f g = Some (X, G) \<Longrightarrow> g < fresh_inst f"
proof -
  assume a: "find_inst f g = Some (X, G)"
  obtain bs1 bs2 p q where "blocks f = bs1 @ X # bs2" "insts X = p @ G # q" "iref G = g"
    using find_in_blocks_split a unfolding find_inst_def by blast
  then have "G \<in> set (all_insts f)" by (simp add: all_insts_def)
  then show ?thesis using \<open>iref G = g\<close> fresh_inst_gt iref_in_refs_of by blast
qed

lemma accumulateConstantOffset_all_const:
  "list_all (\<lambda>(v, sz). isConstInt v) idxs
   \<Longrightarrow> accumulateConstantOffset idxs acc = Some (acc + byte_offset idxs)"
proof (induction idxs arbitrary: acc)
  case Nil
  then show ?case by (simp add: byte_offset_def)
next
  case (Cons e idxs)
  obtain v sz where e: "e = (v, sz)" by (cases e)
  obtain c where v: "v = VConstInt c" using Cons.prems e by (cases v) auto
  have "list_all (\<lambda>(v, sz). isConstInt v) idxs" using Cons.prems by simp
  then show ?case using Cons.IH [of "acc + c * of_nat sz"] e v
    by (simp add: byte_offset_def add.assoc)
qed

lemma users_flat: "users f g = users_in (all_insts f) g"
  by (simp add: users_def users_in_def)

lemma users_in_append [simp]: "users_in (A @ B) g = users_in A g @ users_in B g"
  by (simp add: users_in_def)

lemma users_in_empty_iff:
  "users_in L g = [] \<longleftrightarrow> (\<forall>x\<in>set L. VInst g \<notin> set (operands (ikind x)))"
  by (auto simp: users_in_def filter_empty_conv)

lemma users_in_retarget_new:
  assumes "\<forall>x\<in>set L. VInst r \<notin> set (operands (ikind x))" and "r \<noteq> g"
  shows "users_in (map (retarget g (VInst r)) L) r = users_in L g"
proof -
  have "\<And>x. x \<in> set L \<Longrightarrow>
          map (\<lambda>v. iref x) (filter (\<lambda>v. v = VInst r)
             (map (\<lambda>v. if v = VInst g then VInst r else v) (operands (ikind x))))
          = map (\<lambda>v. iref x) (filter (\<lambda>v. v = VInst g) (operands (ikind x)))"
  proof -
    fix x assume x: "x \<in> set L"
    have "filter ((\<lambda>v. v = VInst r) \<circ> (\<lambda>v. if v = VInst g then VInst r else v)) (operands (ikind x))
            = filter (\<lambda>v. v = VInst g) (operands (ikind x))"
      by (rule filter_cong [OF refl]) (use assms(1) x in auto)
    then show "map (\<lambda>v. iref x) (filter (\<lambda>v. v = VInst r)
             (map (\<lambda>v. if v = VInst g then VInst r else v) (operands (ikind x))))
          = map (\<lambda>v. iref x) (filter (\<lambda>v. v = VInst g) (operands (ikind x)))"
      by (simp add: filter_map comp_def)
  qed
  then show ?thesis
    by (simp add: users_in_def operands_map_operands comp_def cong: map_cong)
qed

lemma users_in_retarget_old:
  assumes "r \<noteq> g"
  shows "users_in (map (retarget g (VInst r)) L) g = []"
  using assms by (auto simp: users_in_empty_iff operands_map_operands)

lemma old_not_mention_fresh:
  assumes "x \<in> set (all_insts f)" and "fresh_inst f \<le> r"
  shows "VInst r \<notin> set (operands (ikind x))"
proof
  assume "VInst r \<in> set (operands (ikind x))"
  then have "known (fresh_inst f) (VInst r)" using known_fresh [OF assms(1)] by blast
  then show False using assms(2) by simp
qed

lemma tag_seq_operands_known:
  assumes "g < n"
    and "\<forall>x\<in>set mid. isBinOp (ikind x) \<and> (\<forall>v\<in>set (operands (ikind x)). known (iref x) v)"
    and "known (n + 4 + length mid) Shifted"
  shows "\<forall>x\<in>set (tag_seq n g P mid Shifted). \<forall>v\<in>set (operands (ikind x)). known (iref x) v"
  using assms by (auto simp: tag_seq_def tag_head_def tag_tail_def)

lemma tag_seq_not_mention_last:
  assumes "g < n" and "map iref mid = [n + 4 ..< n + 4 + length mid]"
    and "\<forall>x\<in>set mid. isBinOp (ikind x) \<and> (\<forall>v\<in>set (operands (ikind x)). known (iref x) v)"
    and "known (n + 4 + length mid) Shifted"
  shows "\<forall>x\<in>set (tag_seq n g P mid Shifted).
           VInst (n + 6 + length mid) \<notin> set (operands (ikind x))"
proof
  fix x assume x: "x \<in> set (tag_seq n g P mid Shifted)"
  then have "iref x \<in> set (map iref (tag_seq n g P mid Shifted))" by simp
  then have le: "iref x \<le> n + 6 + length mid" unfolding tag_seq_refs [OF assms(2)] by simp
  show "VInst (n + 6 + length mid) \<notin> set (operands (ikind x))"
  proof
    assume "VInst (n + 6 + length mid) \<in> set (operands (ikind x))"
    then have "known (iref x) (VInst (n + 6 + length mid))"
      using tag_seq_operands_known [OF assms(1,3,4), of P] x by blast
    then show False using le by simp
  qed
qed

lemma rewrite_flat:
  assumes "distinct_insts f" and "terminated f"
    and "find_inst f g = Some (X, G)" and "ikind G = GEP SrcPtr idxs vec"
    and "\<not> hasAllZeroIndices idxs" and "\<not> isVtableGep f SrcPtr idxs" and "\<not> vec"
  shows "\<exists>f' pre post mid Shifted.
           runOnFunc_body f g = Some (Inr f')
           \<and> all_insts f = pre @ G # post \<and> iref G = g
           \<and> all_insts f' = map (retarget g (VInst (fresh_inst f + 6 + length mid))) (pre @ [G])
                 @ tag_seq (fresh_inst f) g (name_prefix (iname G)) mid Shifted
                 @ map (retarget g (VInst (fresh_inst f + 6 + length mid))) post
           \<and> new_insts f f' = tag_seq (fresh_inst f) g (name_prefix (iname G)) mid Shifted
           \<and> map iref mid = [fresh_inst f + 4 ..< fresh_inst f + 4 + length mid]
           \<and> (\<forall>x\<in>set mid. isBinOp (ikind x)
                  \<and> (\<forall>v\<in>set (operands (ikind x)). known (iref x) v))
           \<and> known (fresh_inst f + 4 + length mid) Shifted
           \<and> (\<forall>c. accumulateConstantOffset idxs 0 = Some c
                  \<longrightarrow> mid = [] \<and> Shifted = VConstInt (push_bit 49 c))"
proof -
  define n where "n = fresh_inst f"
  obtain bs1 bs2 p I q mid Shifted where
    d: "blocks f = bs1 @ X # bs2" "insts X = p @ G # I # q" "iref G = g"
    and r: "runOnFunc_body f g =
               Some (Inr (tag_result f bs1 X bs2 (p @ [G])
                            (tag_seq n g (name_prefix (iname G)) mid Shifted)
                            (I # q) g (VInst (n + 6 + length mid))))"
    and m: "map iref mid = [n + 4 ..< n + 4 + length mid]"
      "\<forall>x\<in>set mid. isBinOp (ikind x) \<and> (\<forall>v\<in>set (operands (ikind x)). known (iref x) v)"
      "known (n + 4 + length mid) Shifted"
      "\<forall>c. accumulateConstantOffset idxs 0 = Some c
                  \<longrightarrow> mid = [] \<and> Shifted = VConstInt (push_bit 49 c)"
    using body_rewrites [OF assms(1-7)] unfolding n_def by blast
  let ?new = "tag_seq n g (name_prefix (iname G)) mid Shifted"
  let ?f' = "tag_result f bs1 X bs2 (p @ [G]) ?new (I # q) g (VInst (n + 6 + length mid))"
  have ni: "new_insts f ?f' = ?new"
    by (rule new_insts_tag_result [OF d(1), where k = "7 + length mid"])
       (use d(2) tag_seq_refs [OF m(1)] in \<open>simp_all add: n_def add.assoc\<close>)
  have a: "all_insts f = (concat (map insts bs1) @ p) @ G # (I # q @ concat (map insts bs2))"
    using d(1,2) by (simp add: all_insts_def)
  have a': "all_insts ?f' =
              map (retarget g (VInst (n + 6 + length mid))) ((concat (map insts bs1) @ p) @ [G])
              @ ?new
              @ map (retarget g (VInst (n + 6 + length mid))) (I # q @ concat (map insts bs2))"
    by (simp add: all_insts_tag_result)
  show ?thesis
    apply (rule exI [of _ ?f'], rule exI [of _ "concat (map insts bs1) @ p"],
        rule exI [of _ "I # q @ concat (map insts bs2)"], rule exI [of _ mid],
        rule exI [of _ Shifted])
    using r a a' ni m d(3) unfolding n_def
    by (simp only: simp_thms)
qed

lemma refs_range:
  assumes "map iref L = [a ..< b]" and "x \<in> set L"
  shows "a \<le> iref x \<and> iref x < b"
proof -
  have "iref x \<in> set (map iref L)" using assms(2) by simp
  then have "iref x \<in> set [a ..< b]" by (simp only: assms(1))
  then show ?thesis by simp
qed

lemma filter_old_retarget:
  assumes "set L \<subseteq> set (all_insts f)"
  shows "filter (\<lambda>x. iref x < fresh_inst f) (map (retarget g np) L) = map (retarget g np) L"
proof -
  have "\<forall>x\<in>set L. iref x < fresh_inst f"
    using assms fresh_inst_gt iref_in_refs_of by blast
  then show ?thesis by (auto simp: filter_id_conv)
qed

lemma users_in_retarget_fresh:
  assumes "set L \<subseteq> set (all_insts f)" and "fresh_inst f \<le> r" and "g < fresh_inst f"
  shows "users_in (map (retarget g (VInst r)) L) r = users_in L g"
  by (rule users_in_retarget_new) (use assms old_not_mention_fresh in auto)

lemma getBasicBlockIndex_none:
  "X \<notin> snd ` set inc \<Longrightarrow> getBasicBlockIndex inc X = - 1"
  by (induction inc) (auto simp: Let_def)

lemma getBasicBlockIndex_first:
  "X \<notin> snd ` set pre \<Longrightarrow> getBasicBlockIndex (pre @ (v, X) # r) X = int (length pre)"
  by (induction pre) (auto simp: Let_def)

lemma patchIncoming_prefix:
  assumes "X \<noteq> B"
  shows "X \<notin> snd ` set pre \<Longrightarrow> patchIncoming X B (pre @ inc) = Some (pre @ map (rekey X B) inc)"
proof (induction inc arbitrary: pre)
  case Nil
  then show ?case
    by (subst patchIncoming.simps) (simp add: getBasicBlockIndex_none Let_def)
next
  case (Cons e inc)
  obtain v b where e: "e = (v, b)" by (cases e)
  show ?case
  proof (cases "b = X")
    case True
    have "patchIncoming X B (pre @ e # inc) = patchIncoming X B ((pre @ [(v, B)]) @ inc)"
      by (subst patchIncoming.simps)
         (simp add: e True getBasicBlockIndex_first [OF Cons.prems] Let_def setIncomingBlock_def)
    also have "\<dots> = Some ((pre @ [(v, B)]) @ map (rekey X B) inc)"
      by (rule Cons.IH) (use Cons.prems assms in auto)
    finally show ?thesis by (simp add: e True rekey_def)
  next
    case False
    have "patchIncoming X B (pre @ e # inc) = patchIncoming X B ((pre @ [e]) @ inc)" by simp
    also have "\<dots> = Some ((pre @ [e]) @ map (rekey X B) inc)"
      by (rule Cons.IH) (use Cons.prems False e in auto)
    finally show ?thesis using False by (simp add: e rekey_def)
  qed
qed

lemma patchIncoming_eq: "X \<noteq> B \<Longrightarrow> patchIncoming X B inc = Some (map (rekey X B) inc)"
  using patchIncoming_prefix [of X B "[]" inc] by simp

lemma patchPHIs_eq:
  assumes "X \<noteq> B"
  shows "patchPHIs X B L = Some (map (rekey_phi X B) (leading_phis L) @ rest_insts L)"
proof (induction L)
  case Nil
  show ?case by (simp add: leading_phis_def rest_insts_def)
next
  case (Cons x L)
  show ?case
  proof (cases "ikind x")
    case (PHI inc)
    then show ?thesis
      using Cons patchIncoming_eq [OF assms, of inc]
      by (simp add: leading_phis_def rest_insts_def rekey_phi_def)
  qed (simp_all add: leading_phis_def rest_insts_def)
qed

lemma lookup_block_split:
  "lookup_block d bs = Some D \<Longrightarrow> \<exists>bs1 bs2. bs = bs1 @ D # bs2 \<and> bref D = d \<and> d \<notin> bref ` set bs1"
proof (induction bs)
  case Nil
  then show ?case by simp
next
  case (Cons b bs)
  show ?case
  proof (cases "bref b = d")
    case True
    then show ?thesis using Cons.prems by (intro exI [of _ "[]"] exI [of _ bs]) simp
  next
    case False
    then obtain bs1 bs2 where "bs = bs1 @ D # bs2" "bref D = d" "d \<notin> bref ` set bs1"
      using Cons by auto
    then show ?thesis using False
      by (intro exI [of _ "b # bs1"] exI [of _ bs2]) auto
  qed
qed

lemma lookup_block_append:
  "d \<notin> bref ` set bs1 \<Longrightarrow> lookup_block d (bs1 @ bs) = lookup_block d bs"
  by (induction bs1) auto

lemma insertBlockBefore_split:
  "d \<notin> bref ` set bs1 \<Longrightarrow> bref D = d \<Longrightarrow> insertBlockBefore d N (bs1 @ D # bs2) = bs1 @ N # D # bs2"
  by (induction bs1) auto

lemma fresh_block_gt: "b \<in> set (block_refs f) \<Longrightarrow> b < fresh_block f"
  by (simp add: fresh_block_def fold_max_Max less_Suc_eq_le)

lemma bref_lt_fresh: "b \<in> set (blocks f) \<Longrightarrow> bref b < fresh_block f"
  by (rule fresh_block_gt) (simp add: block_refs_def)

lemma succ_lt_fresh:
  "x \<in> set (all_insts f) \<Longrightarrow> s \<in> set (successors_of (ikind x)) \<Longrightarrow> s < fresh_block f"
  by (rule fresh_block_gt) (auto simp: block_refs_def)

lemma incoming_lt_fresh:
  "x \<in> set (all_insts f) \<Longrightarrow> s \<in> set (incoming_blocks (ikind x)) \<Longrightarrow> s < fresh_block f"
  by (rule fresh_block_gt) (auto simp: block_refs_def)

lemma setNormalDest_redirect: "setNormalDest i B f = map_insts (redirect i B) f"
proof -
  have "redirect i B =
          (\<lambda>x. if iref x = i
               then (case ikind x of Invoke args n u \<Rightarrow> x\<lparr>ikind := Invoke args B u\<rparr> | _ \<Rightarrow> x)
               else x)"
    by (rule ext) (simp add: redirect_def)
  then show ?thesis by (simp add: setNormalDest_def)
qed

lemma redirect_simps [simp]: "iref (redirect i B x) = iref x" "iname (redirect i B x) = iname x"
  "isPHI (ikind (redirect i B x)) = isPHI (ikind x)"
  by (cases "ikind x"; simp add: redirect_def)+

lemma redirect_not_invoke: "\<not> (\<exists>a n u. ikind x = Invoke a n u) \<Longrightarrow> redirect i B x = x"
  by (cases "ikind x") (auto simp: redirect_def)

lemma redirect_other: "iref x \<noteq> i \<Longrightarrow> redirect i B x = x"
  by (simp add: redirect_def)

lemma leading_phis_redirect:
  "leading_phis (map (redirect i B) L) = leading_phis L"
proof (induction L)
  case Nil
  show ?case by (simp add: leading_phis_def)
next
  case (Cons x L)
  show ?case
  proof (cases "isPHI (ikind x)")
    case True
    then have "redirect i B x = x" by (intro redirect_not_invoke) (cases "ikind x"; simp)
    then show ?thesis using Cons True by (simp add: leading_phis_def)
  next
    case False
    then show ?thesis by (simp add: leading_phis_def)
  qed
qed

lemma rest_insts_redirect:
  "rest_insts (map (redirect i B) L) = map (redirect i B) (rest_insts L)"
  by (induction L) (simp_all add: rest_insts_def)

lemma find_inst_block:
  "find_inst f i = Some (X, I) \<Longrightarrow> X \<in> set (blocks f) \<and> I \<in> set (insts X) \<and> iref I = i"
  using find_in_blocks_split [of i "blocks f" X I] by (auto simp: find_inst_def)

lemma invoke_shape:
  assumes "distinct_blocks f"
    and "find_inst f i = Some (X, I)" and "ikind I = Invoke args T U"
    and "find_block f T = Some D"
  shows "\<exists>bs1 bs2. blocks f = bs1 @ D # bs2 \<and> bref D = T
           \<and> T \<notin> bref ` set bs1 \<and> T \<notin> bref ` set bs2
           \<and> getInsertPointAfter f i =
               Some (Inr (f\<lparr>blocks := map (map_block_insts (redirect i (fresh_block f))) bs1
                                       @ new_block f T # patched_dest f i X D
                                       # map (map_block_insts (redirect i (fresh_block f))) bs2\<rparr>,
                          fresh_inst f))"
proof -
  define B where "B = fresh_block f"
  define r where "r = redirect i B"
  obtain bs1 bs2 where d: "blocks f = bs1 @ D # bs2" "bref D = T" "T \<notin> bref ` set bs1"
    using lookup_block_split assms(4) unfolding find_block_def by blast
  have d2: "T \<notin> bref ` set bs2"
    using assms(1) d(1,2) by (auto simp: distinct_blocks_def)
  have XI: "X \<in> set (blocks f)" "I \<in> set (insts X)" "iref I = i"
    using find_inst_block [OF assms(2)] by simp_all
  have TB: "T \<noteq> B" using bref_lt_fresh [of D f] d(1,2) by (auto simp: B_def)
  have XB: "bref X \<noteq> B" using bref_lt_fresh [OF XI(1)] by (simp add: B_def)
  have "I \<in> set (all_insts f)" using XI by (auto simp: all_insts_def)
  then have iB: "i < fresh_inst f" using XI(3) fresh_inst_gt iref_in_refs_of by blast
  let ?NB = "new_block f T"
  let ?f1 = "f\<lparr>blocks := insertBlockBefore T ?NB (blocks f)\<rparr>"
  have b1: "blocks ?f1 = bs1 @ ?NB # D # bs2"
    by (simp add: d(1) insertBlockBefore_split [OF d(3,2)])
  let ?f2 = "setNormalDest i B ?f1"
  have rNB: "map_block_insts r ?NB = ?NB"
    using iB by (simp add: map_block_insts_def new_block_def r_def redirect_def)
  have b2: "blocks ?f2 = map (map_block_insts r) bs1 @ ?NB # map_block_insts r D
                # map (map_block_insts r) bs2"
    using rNB by (simp add: setNormalDest_redirect map_insts_def b1 r_def map_block_insts_def)
  have nb1: "T \<notin> bref ` set (map (map_block_insts r) bs1)"
    using d(3) by (auto simp: map_block_insts_def)
  have fb2: "find_block ?f2 T = Some (map_block_insts r D)"
    unfolding find_block_def b2 lookup_block_append [OF nb1]
    using TB d(2) by (simp add: new_block_def B_def map_block_insts_def)
  have pp: "patchPHIs (bref X) B (insts (map_block_insts r D))
              = Some (insts (patched_dest f i X D))"
    using patchPHIs_eq [OF XB, of "map r (insts D)"]
    by (simp add: map_block_insts_def patched_dest_def r_def leading_phis_redirect
        rest_insts_redirect B_def)
  have mb: "blocks (map_block T (\<lambda>b. b\<lparr>insts := insts (patched_dest f i X D)\<rparr>) ?f2)
              = map (map_block_insts r) bs1 @ ?NB # patched_dest f i X D
                # map (map_block_insts r) bs2"
  proof -
    have m1: "map (\<lambda>b. if bref b = T then b\<lparr>insts := insts (patched_dest f i X D)\<rparr> else b)
                (map (map_block_insts r) bs1) = map (map_block_insts r) bs1"
      by (rule map_idI) (use d(3) in \<open>auto simp: map_block_insts_def\<close>)
    have m2: "map (\<lambda>b. if bref b = T then b\<lparr>insts := insts (patched_dest f i X D)\<rparr> else b)
                (map (map_block_insts r) bs2) = map (map_block_insts r) bs2"
      by (rule map_idI) (use d2 in \<open>auto simp: map_block_insts_def\<close>)
    have m3: "(map_block_insts r D)\<lparr>insts := insts (patched_dest f i X D)\<rparr> = patched_dest f i X D"
      by (simp add: map_block_insts_def patched_dest_def)
    have n1: "bref ?NB \<noteq> T" using TB by (simp add: new_block_def B_def)
    have n2: "bref (map_block_insts r D) = T" using d(2) by (simp add: map_block_insts_def)
    have "blocks (map_block T (\<lambda>b. b\<lparr>insts := insts (patched_dest f i X D)\<rparr>) ?f2)
            = map (\<lambda>b. if bref b = T then b\<lparr>insts := insts (patched_dest f i X D)\<rparr> else b)
                (blocks ?f2)"
      by (simp add: map_block_def)
    also have "\<dots> = map (map_block_insts r) bs1 @ ?NB # patched_dest f i X D
                # map (map_block_insts r) bs2"
      by (simp only: b2 map_append list.map m1 m2 m3 n1 n2 if_True if_False refl simp_thms)
    finally show ?thesis .
  qed
  have res: "map_block T (\<lambda>b. b\<lparr>insts := insts (patched_dest f i X D)\<rparr>) ?f2
               = f\<lparr>blocks := map (map_block_insts r) bs1 @ ?NB # patched_dest f i X D
                                # map (map_block_insts r) bs2\<rparr>"
    using mb by (simp add: map_block_def setNormalDest_redirect map_insts_def)
  have "getInsertPointAfter f i =
          Some (Inr (f\<lparr>blocks := map (map_block_insts r) bs1 @ ?NB # patched_dest f i X D
                                  # map (map_block_insts r) bs2\<rparr>, fresh_inst f))"
    using assms(2,3,4) fb2 pp res unfolding new_block_def B_def
    by (simp add: getInsertPointAfter_def Let_def)
  then show ?thesis
    apply (rule_tac x = bs1 in exI, rule_tac x = bs2 in exI)
    using d d2 by (simp add: r_def B_def)
qed

lemma predecessors_edges: "predecessors f t = concat (map (edges_to t) (blocks f))"
proof -
  have "edges_to t = (\<lambda>b. concat (map (\<lambda>x. map (\<lambda>s. bref b)
                          (filter (\<lambda>s. s = t) (successors_of (ikind x)))) (insts b)))"
    by (rule ext) (simp add: edges_to_def)
  then show ?thesis by (simp add: predecessors_def)
qed

lemma predecessors_iff:
  "b \<in> set (predecessors f t) \<longleftrightarrow>
     (\<exists>Y\<in>set (blocks f). bref Y = b \<and> (\<exists>y\<in>set (insts Y). t \<in> set (successors_of (ikind y))))"
  by (auto simp: predecessors_def)

lemma rekey_phi_simps [simp]: "iref (rekey_phi X B x) = iref x"
  "isPHI (ikind (rekey_phi X B x)) = isPHI (ikind x)"
  "successors_of (ikind (rekey_phi X B x)) = successors_of (ikind x)"
  by (cases "ikind x"; simp add: rekey_phi_def)+

lemma leading_phis_all: "x \<in> set (leading_phis L) \<Longrightarrow> isPHI (ikind x)"
  unfolding leading_phis_def by (auto dest: set_takeWhileD)

lemma leading_rest: "leading_phis L @ rest_insts L = L"
  by (simp add: leading_phis_def rest_insts_def)

lemma isPHI_no_succ: "isPHI k \<Longrightarrow> successors_of k = []"
  by (cases k) auto

lemma redirect_succ_fresh:
  assumes "\<forall>s\<in>set (successors_of (ikind x)). s < B"
  shows "filter (\<lambda>s. s = B) (successors_of (ikind (redirect i B x)))
           = (if iref x = i \<and> isInvoke (ikind x) then [B] else [])"
proof (cases "iref x = i \<and> isInvoke (ikind x)")
  case True
  then obtain a n u where k: "ikind x = Invoke a n u" by (cases "ikind x") auto
  then have "u \<noteq> B" using assms by auto
  then show ?thesis using True k by (simp add: redirect_def)
next
  case False
  then have "redirect i B x = x" by (cases "ikind x") (auto simp: redirect_def)
  moreover have "filter (\<lambda>s. s = B) (successors_of (ikind x)) = []"
    using assms by (auto simp: filter_empty_conv)
  ultimately show ?thesis using False by simp
qed

lemma edges_to_fresh_list:
  assumes "\<forall>x\<in>set L. \<forall>s\<in>set (successors_of (ikind x)). s < B"
  shows "concat (map (\<lambda>x. map (\<lambda>s. c) (filter (\<lambda>s. s = B)
                     (successors_of (ikind (redirect i B x))))) L)
           = map (\<lambda>x. c) (filter (\<lambda>x. iref x = i \<and> isInvoke (ikind x)) L)"
  using assms by (induction L) (simp_all add: redirect_succ_fresh)

lemma edges_to_redirected:
  assumes "\<forall>x\<in>set (insts b). \<forall>s\<in>set (successors_of (ikind x)). s < B"
  shows "edges_to B (map_block_insts (redirect i B) b)
           = map (\<lambda>x. bref b) (filter (\<lambda>x. iref x = i \<and> isInvoke (ikind x)) (insts b))"
  using edges_to_fresh_list [OF assms, of "bref b" i]
  by (simp add: edges_to_def map_block_insts_def comp_def)

lemma filter_invoke_leading:
  "filter (\<lambda>x. iref x = i \<and> isInvoke (ikind x)) (leading_phis L) = []"
proof -
  have "\<forall>x\<in>set (leading_phis L). \<not> isInvoke (ikind x)"
  proof
    fix x assume "x \<in> set (leading_phis L)"
    then have "isPHI (ikind x)" by (rule leading_phis_all)
    then show "\<not> isInvoke (ikind x)" by (cases "ikind x") auto
  qed
  then show ?thesis by (auto simp: filter_empty_conv)
qed

lemma edges_to_patched:
  assumes "\<forall>x\<in>set (insts D). \<forall>s\<in>set (successors_of (ikind x)). s < fresh_block f"
  shows "edges_to (fresh_block f) (patched_dest f i X D)
           = map (\<lambda>x. bref D) (filter (\<lambda>x. iref x = i \<and> isInvoke (ikind x)) (insts D))"
proof -
  let ?B = "fresh_block f"
  let ?Q = "\<lambda>x. iref x = i \<and> isInvoke (ikind x)"
  have r: "\<forall>x\<in>set (rest_insts (insts D)). \<forall>s\<in>set (successors_of (ikind x)). s < ?B"
    using assms leading_rest [of "insts D"] by (metis Un_iff set_append)
  have l: "concat (map (\<lambda>x. map (\<lambda>s. bref D) (filter (\<lambda>s. s = ?B) (successors_of (ikind x))))
             (map (rekey_phi (bref X) ?B) (leading_phis (insts D)))) = []"
    using leading_phis_all [of _ "insts D"] by (auto simp: isPHI_no_succ)
  have "edges_to ?B (patched_dest f i X D)
          = map (\<lambda>x. bref D) (filter ?Q (rest_insts (insts D)))"
    using edges_to_fresh_list [OF r, of "bref D" i] l
    by (simp add: edges_to_def patched_dest_def comp_def)
  also have "\<dots> = map (\<lambda>x. bref D) (filter ?Q (leading_phis (insts D) @ rest_insts (insts D)))"
    by (simp add: filter_invoke_leading)
  finally show ?thesis by (simp add: leading_rest)
qed

lemma only_invoke:
  assumes "distinct_insts f" and "find_inst f i = Some (X, I)" and "isInvoke (ikind I)"
  shows "concat (map (\<lambda>b. map (\<lambda>x. bref b)
                       (filter (\<lambda>x. iref x = i \<and> isInvoke (ikind x)) (insts b))) (blocks f))
           = [bref X]"
proof -
  let ?Q = "\<lambda>x. iref x = i \<and> isInvoke (ikind x)"
  obtain c1 c2 p q where d: "blocks f = c1 @ X # c2" "insts X = p @ I # q" "iref I = i"
    using find_in_blocks_split assms(2) unfolding find_inst_def by blast
  have dist: "distinct (map iref (concat (map insts c1) @ p @ I # q @ concat (map insts c2)))"
    using assms(1) d(1,2) by (simp add: distinct_insts_def all_insts_def)
  have a: "i \<notin> iref ` set (concat (map insts c1))" "i \<notin> iref ` set p"
    "i \<notin> iref ` set q" "i \<notin> iref ` set (concat (map insts c2))"
    using dist d(3) by auto
  have n1: "\<forall>b\<in>set c1. filter ?Q (insts b) = []"
    using a(1) by (fastforce simp: filter_empty_conv)
  have n2: "\<forall>b\<in>set c2. filter ?Q (insts b) = []"
    using a(4) by (fastforce simp: filter_empty_conv)
  have n3: "filter ?Q p = []" using a(2) by (fastforce simp: filter_empty_conv)
  have n4: "filter ?Q q = []" using a(3) by (fastforce simp: filter_empty_conv)
  have e1: "concat (map (\<lambda>b. map (\<lambda>x. bref b) (filter ?Q (insts b))) c1) = []"
    using n1 by simp
  have e2: "concat (map (\<lambda>b. map (\<lambda>x. bref b) (filter ?Q (insts b))) c2) = []"
    using n2 by simp
  show ?thesis
    using assms(3) by (simp add: d e1 e2 n3 n4)
qed

lemma invoke_result_facts:
  assumes "distinct_insts f" and "distinct_blocks f"
    and "find_inst f i = Some (X, I)" and "ikind I = Invoke args T U"
    and "find_block f T = Some D"
  shows "\<exists>f' bs1 bs2.
           getInsertPointAfter f i = Some (Inr (f', fresh_inst f))
           \<and> blocks f = bs1 @ D # bs2
           \<and> blocks f' = map (map_block_insts (redirect i (fresh_block f))) bs1
                           @ new_block f T # patched_dest f i X D
                           # map (map_block_insts (redirect i (fresh_block f))) bs2
           \<and> find_block f' (fresh_block f) = Some (new_block f T)
           \<and> find_block f' T = Some (patched_dest f i X D)
           \<and> predecessors f' (fresh_block f) = [bref X]"
proof -
  let ?B = "fresh_block f"
  let ?r = "redirect i ?B"
  obtain bs1 bs2 where d: "blocks f = bs1 @ D # bs2" "bref D = T"
    "T \<notin> bref ` set bs1" "T \<notin> bref ` set bs2"
    and g: "getInsertPointAfter f i =
               Some (Inr (f\<lparr>blocks := map (map_block_insts ?r) bs1
                                       @ new_block f T # patched_dest f i X D
                                       # map (map_block_insts ?r) bs2\<rparr>, fresh_inst f))"
    using invoke_shape [OF assms(2-5)] by blast
  let ?f' = "f\<lparr>blocks := map (map_block_insts ?r) bs1 @ new_block f T # patched_dest f i X D
                            # map (map_block_insts ?r) bs2\<rparr>"
  have TB: "T \<noteq> ?B" using bref_lt_fresh [of D f] d(1,2) by auto
  have "\<forall>b\<in>set bs1. bref b < ?B" using bref_lt_fresh [of _ f] d(1) by simp
  then have "\<forall>b\<in>set bs1. bref (map_block_insts ?r b) \<noteq> ?B"
    by (auto simp: map_block_insts_def)
  then have nB: "?B \<notin> bref ` set (map (map_block_insts ?r) bs1)"
    by auto
  have nT: "T \<notin> bref ` set (map (map_block_insts ?r) bs1)"
    using d(3) by (auto simp: map_block_insts_def)
  have fB: "find_block ?f' ?B = Some (new_block f T)"
    unfolding find_block_def using lookup_block_append [OF nB]
    by (simp add: new_block_def)
  have fT: "find_block ?f' T = Some (patched_dest f i X D)"
    unfolding find_block_def using lookup_block_append [OF nT] TB d(2)
    by (simp add: new_block_def patched_dest_def)
  have sl: "\<And>b. b \<in> set (blocks f) \<Longrightarrow>
              \<forall>x\<in>set (insts b). \<forall>s\<in>set (successors_of (ikind x)). s < ?B"
    using succ_lt_fresh [of _ f] by (auto simp: all_insts_def)
  let ?c = "\<lambda>b. map (\<lambda>x. bref b) (filter (\<lambda>x. iref x = i \<and> isInvoke (ikind x)) (insts b))"
  have ee: "\<And>b. b \<in> set (blocks f) \<Longrightarrow> edges_to ?B (map_block_insts ?r b) = ?c b"
    by (rule edges_to_redirected, rule sl)
  have e1: "map (edges_to ?B \<circ> map_block_insts ?r) bs1 = map ?c bs1"
    using ee d(1) by simp
  have e2: "map (edges_to ?B \<circ> map_block_insts ?r) bs2 = map ?c bs2"
    using ee d(1) by simp
  have e3: "edges_to ?B (patched_dest f i X D) = ?c D"
    using edges_to_patched [OF sl, of D i X] d(1) by simp
  have e4: "edges_to ?B (new_block f T) = []"
    using TB by (simp add: edges_to_def new_block_def)
  have "predecessors ?f' ?B = concat (map ?c (bs1 @ D # bs2))"
    by (simp add: predecessors_edges e1 e2 e3 e4)
  also have "\<dots> = [bref X]"
    using only_invoke [OF assms(1,3)] assms(4) d(1) by simp
  finally have pr: "predecessors ?f' ?B = [bref X]" .
  show ?thesis
    apply (rule exI [of _ ?f'], rule exI [of _ bs1], rule exI [of _ bs2])
    using g d(1) fB fT pr by simp
qed

lemma leading_phis_patched:
  "leading_phis (insts (patched_dest f i X D))
     = map (rekey_phi (bref X) (fresh_block f)) (leading_phis (insts D))"
proof -
  let ?P = "\<lambda>x. isPHI (ikind x)"
  let ?A = "map (rekey_phi (bref X) (fresh_block f)) (leading_phis (insts D))"
  let ?R = "map (redirect i (fresh_block f)) (rest_insts (insts D))"
  have a: "\<forall>x\<in>set ?A. ?P x" using leading_phis_all [of _ "insts D"] by auto
  have "takeWhile ?P (?A @ ?R) = ?A @ takeWhile ?P ?R"
    by (rule takeWhile_append2) (use a in blast)
  moreover have "takeWhile ?P ?R = []"
  proof (cases "rest_insts (insts D)")
    case Nil
    then show ?thesis by simp
  next
    case (Cons y ys)
    then have "\<not> ?P y"
      using hd_dropWhile [of ?P "insts D"] by (simp add: rest_insts_def)
    then show ?thesis using Cons by simp
  qed
  ultimately show ?thesis by (simp add: leading_phis_def patched_dest_def)
qed

lemma rekey_phi_incoming:
  "X \<noteq> B \<Longrightarrow> X \<notin> set (incoming_blocks (ikind (rekey_phi X B x)))"
  by (cases "ikind x") (auto simp: rekey_phi_def rekey_def)

lemma rekey_phi_incoming_cases:
  "b \<in> set (incoming_blocks (ikind (rekey_phi X B x)))
   \<Longrightarrow> b = B \<or> (b \<noteq> X \<and> b \<in> set (incoming_blocks (ikind x)))"
  by (cases "ikind x") (auto simp: rekey_phi_def rekey_def split: if_splits)

lemma succ_is_term: "successors_of k \<noteq> [] \<Longrightarrow> isTerminator k"
  by (cases k) auto

lemma edges_to_subset: "set (edges_to t b) \<subseteq> {bref b}"
  by (auto simp: edges_to_def)

lemma edges_to_no_succ:
  "\<forall>x\<in>set (insts b). t \<notin> set (successors_of (ikind x)) \<Longrightarrow> edges_to t b = []"
  by (auto simp: edges_to_def filter_empty_conv)

lemma edges_to_cong:
  assumes "bref b = bref c"
    and "map (\<lambda>x. successors_of (ikind x)) (insts b) = map (\<lambda>x. successors_of (ikind x)) (insts c)"
  shows "edges_to t b = edges_to t c"
proof -
  have "edges_to t b = concat (map (\<lambda>ss. map (\<lambda>s. bref b) (filter (\<lambda>s. s = t) ss))
                          (map (\<lambda>x. successors_of (ikind x)) (insts b)))"
    by (simp add: edges_to_def comp_def)
  also have "\<dots> = concat (map (\<lambda>ss. map (\<lambda>s. bref c) (filter (\<lambda>s. s = t) ss))
                          (map (\<lambda>x. successors_of (ikind x)) (insts c)))"
    by (simp only: assms)
  also have "\<dots> = edges_to t c" by (simp add: edges_to_def comp_def)
  finally show ?thesis .
qed

lemma redirect_PHI: "isPHI (ikind x) \<Longrightarrow> redirect i B x = x"
  by (cases "ikind x") (auto simp: redirect_def)

lemma edges_to_patched_dest:
  "edges_to t (patched_dest f i X D) = edges_to t (map_block_insts (redirect i (fresh_block f)) D)"
proof (rule edges_to_cong)
  show "bref (patched_dest f i X D) = bref (map_block_insts (redirect i (fresh_block f)) D)"
    by (simp add: patched_dest_def map_block_insts_def)
next
  let ?r = "redirect i (fresh_block f)"
  let ?s = "\<lambda>x. successors_of (ikind x)"
  have l: "map ?s (map (rekey_phi (bref X) (fresh_block f)) (leading_phis (insts D)))
             = map ?s (map ?r (leading_phis (insts D)))"
    using leading_phis_all [of _ "insts D"] by (simp add: redirect_PHI)
  have "map ?s (insts (map_block_insts ?r D))
          = map ?s (map ?r (leading_phis (insts D) @ rest_insts (insts D)))"
    by (simp add: leading_rest map_block_insts_def)
  also have "\<dots> = map ?s (insts (patched_dest f i X D))"
    using l by (simp add: patched_dest_def)
  finally show "map ?s (insts (patched_dest f i X D)) = map ?s (insts (map_block_insts ?r D))"
    by simp
qed

text \<open>The block of the invoke, in a function with one terminator to a block.\<close>

lemma invoke_last:
  assumes "single_terminator f" and "X \<in> set (blocks f)" and "insts X = p @ I # q"
    and "isTerminator (ikind I)"
  shows "q = []" and "\<forall>y\<in>set p. successors_of (ikind y) = []"
proof -
  have b: "\<forall>x\<in>set (butlast (insts X)). \<not> isTerminator (ikind x)"
    using assms(1,2) by (simp add: single_terminator_def list_all_iff)
  show q: "q = []"
  proof (rule ccontr)
    assume "q \<noteq> []"
    then have "butlast (insts X) = p @ I # butlast q" by (simp add: assms(3) butlast_append)
    then show False using b assms(4) by simp
  qed
  have "butlast (insts X) = p" by (simp add: assms(3) q butlast_append)
  then have "\<forall>y\<in>set p. \<not> isTerminator (ikind y)" using b by simp
  then show "\<forall>y\<in>set p. successors_of (ikind y) = []" using succ_is_term by blast
qed

lemma preds_after_split:
  assumes "distinct_insts f" and "distinct_blocks f"
    and "find_inst f i = Some (X, I)" and "ikind I = Invoke args T U"
    and "find_block f T = Some D"
    and "single_terminator f" and "U \<noteq> T"
    and "getInsertPointAfter f i = Some (Inr (f', ip))"
  shows "set (predecessors f' T) = set (predecessors f T) - {bref X} \<union> {fresh_block f}"
    and "bref X \<in> set (predecessors f T)"
proof -
  let ?B = "fresh_block f"
  let ?r = "redirect i ?B"
  let ?D' = "patched_dest f i X D"
  obtain f1 bs1 bs2 where
    g: "getInsertPointAfter f i = Some (Inr (f1, fresh_inst f))"
    and b: "blocks f = bs1 @ D # bs2"
    and b1: "blocks f1 = map (map_block_insts ?r) bs1 @ new_block f T # ?D'
                           # map (map_block_insts ?r) bs2"
    using invoke_result_facts [OF assms(1-5)] by blast
  have b': "blocks f' = map (map_block_insts ?r) bs1 @ new_block f T # ?D'
                           # map (map_block_insts ?r) bs2"
    using g b1 assms(8) by simp
  have XI: "X \<in> set (blocks f)" "I \<in> set (insts X)" "iref I = i"
    using find_inst_block [OF assms(3)] by simp_all
  have DT: "D \<in> set (blocks f)" using b by simp
  have TB: "T \<noteq> ?B"
  proof -
    have "X \<in> set (blocks f)" by (rule XI(1))
    have "I \<in> set (all_insts f)" using XI(1,2) by (auto simp: all_insts_def)
    then have "T < ?B" using succ_lt_fresh [of I f T] assms(4) by simp
    then show ?thesis by simp
  qed
  obtain c1 c2 p q where d: "blocks f = c1 @ X # c2" "insts X = p @ I # q"
    using find_in_blocks_split assms(3) unfolding find_inst_def by blast
  have dist: "distinct (map iref (concat (map insts c1) @ p @ I # q @ concat (map insts c2)))"
    using assms(1) d(1,2) by (simp add: distinct_insts_def all_insts_def)
  have uniq: "\<And>Y y. Y \<in> set (blocks f) \<Longrightarrow> y \<in> set (insts Y) \<Longrightarrow> iref y = i \<Longrightarrow> Y = X"
  proof -
    fix Y y assume Y: "Y \<in> set (blocks f)" "y \<in> set (insts Y)" "iref y = i"
    have "i \<notin> iref ` set (concat (map insts c1))" "i \<notin> iref ` set (concat (map insts c2))"
      using dist XI(3) by auto
    then have "Y \<notin> set c1" "Y \<notin> set c2" using Y(2,3) by auto
    then show "Y = X" using Y(1) d(1) by auto
  qed
  have tm: "isTerminator (ikind I)" by (simp add: assms(4))
  have q: "q = []" and ps: "\<forall>y\<in>set p. successors_of (ikind y) = []"
    using invoke_last [OF assms(6) XI(1) d(2) tm] by blast+
  have iX: "insts X = p @ [I]" using d(2) q by simp
  have e1: "\<And>Y. Y \<in> set (blocks f) \<Longrightarrow> Y \<noteq> X \<Longrightarrow> edges_to T (map_block_insts ?r Y) = edges_to T Y"
  proof -
    fix Y assume Y: "Y \<in> set (blocks f)" "Y \<noteq> X"
    have "\<forall>y\<in>set (insts Y). ?r y = y"
    proof
      fix y assume "y \<in> set (insts Y)"
      then have "iref y \<noteq> i" using uniq [OF Y(1)] Y(2) by blast
      then show "?r y = y" by (rule redirect_other)
    qed
    then have "map ?r (insts Y) = insts Y" by (simp add: map_idI)
    then have "map_block_insts ?r Y = Y" by (simp add: map_block_insts_def)
    then show "edges_to T (map_block_insts ?r Y) = edges_to T Y" by simp
  qed
  have rI: "?r I = I\<lparr>ikind := Invoke args ?B U\<rparr>"
    using XI(3) assms(4) by (simp add: redirect_def)
  have ip: "i \<notin> iref ` set p" using dist XI(3) by auto
  have rp: "map ?r p = p"
  proof (rule map_idI)
    fix y assume "y \<in> set p"
    then have "iref y \<noteq> i" using ip by auto
    then show "?r y = y" by (rule redirect_other)
  qed
  have e2: "edges_to T (map_block_insts ?r X) = []"
  proof (rule edges_to_no_succ)
    show "\<forall>x\<in>set (insts (map_block_insts ?r X)). T \<notin> set (successors_of (ikind x))"
      using ps TB assms(7) by (auto simp: map_block_insts_def iX rp rI)
  qed
  have e3: "edges_to T X = [bref X]"
  proof -
    have "concat (map (\<lambda>x. map (\<lambda>s. bref X) (filter (\<lambda>s. s = T) (successors_of (ikind x)))) p) = []"
      using ps by simp
    then show ?thesis using assms(4,7) by (simp add: edges_to_def iX)
  qed
  have enb: "edges_to T (new_block f T) = [?B]"
    by (simp add: edges_to_def new_block_def)
  have p': "set (predecessors f' T)
              = {?B} \<union> (\<Union>Y\<in>set (blocks f). set (edges_to T (map_block_insts ?r Y)))"
    unfolding predecessors_edges b' b
    by (simp add: enb edges_to_patched_dest) blast
  have pf: "set (predecessors f T) = (\<Union>Y\<in>set (blocks f). set (edges_to T Y))"
    unfolding predecessors_edges by simp
  have others: "\<And>Y. Y \<in> set (blocks f) \<Longrightarrow> Y \<noteq> X \<Longrightarrow> bref X \<notin> set (edges_to T Y)"
  proof -
    fix Y assume Y: "Y \<in> set (blocks f)" "Y \<noteq> X"
    have "inj_on bref (set (blocks f))"
      using assms(2) by (simp add: distinct_blocks_def distinct_map)
    then have "bref Y \<noteq> bref X" using Y XI(1) by (auto dest: inj_onD)
    then show "bref X \<notin> set (edges_to T Y)" using edges_to_subset [of T Y] by auto
  qed
  have Bn: "\<And>Y. Y \<in> set (blocks f) \<Longrightarrow> ?B \<notin> set (edges_to T Y)"
  proof -
    fix Y assume Y: "Y \<in> set (blocks f)"
    have "bref Y \<noteq> ?B" using bref_lt_fresh [OF Y] by simp
    then show "?B \<notin> set (edges_to T Y)" using edges_to_subset [of T Y] by auto
  qed
  show "bref X \<in> set (predecessors f T)"
    unfolding pf using XI(1) e3 by force
  show "set (predecessors f' T) = set (predecessors f T) - {bref X} \<union> {?B}"
  proof (intro set_eqI iffI)
    fix b assume "b \<in> set (predecessors f' T)"
    then consider "b = ?B" | Y where "Y \<in> set (blocks f)" "b \<in> set (edges_to T (map_block_insts ?r Y))"
      unfolding p' by blast
    then show "b \<in> set (predecessors f T) - {bref X} \<union> {?B}"
    proof cases
      case 1
      then show ?thesis by simp
    next
      case 2
      have "Y \<noteq> X" using 2(2) e2 by auto
      then have "b \<in> set (edges_to T Y)" using 2 e1 by simp
      moreover have "b \<noteq> bref X" using others [OF 2(1) \<open>Y \<noteq> X\<close>] calculation by auto
      ultimately show ?thesis unfolding pf using 2(1) by blast
    qed
  next
    fix b assume h: "b \<in> set (predecessors f T) - {bref X} \<union> {?B}"
    show "b \<in> set (predecessors f' T)"
    proof (cases "b = ?B")
      case True
      then show ?thesis unfolding p' by simp
    next
      case False
      then obtain Y where Y: "Y \<in> set (blocks f)" "b \<in> set (edges_to T Y)" "b \<noteq> bref X"
        using h unfolding pf by blast
      have "Y \<noteq> X" using Y(2,3) e3 by auto
      then have "b \<in> set (edges_to T (map_block_insts ?r Y))" using e1 Y by simp
      then show ?thesis unfolding p' using Y(1) by blast
    qed
  qed
qed

lemma rekey_phi_incoming_set:
  "set (incoming_blocks (ikind (rekey_phi X B x)))
     = (\<lambda>b. if b = X then B else b) ` set (incoming_blocks (ikind x))"
  by (cases "ikind x") (auto simp: rekey_phi_def rekey_def image_iff)

section \<open>Claims\<close>

text \<open>
  C1. Identity law: for a rewritten GEP and any store in which bit 48 of the GEP's pointer
  value is 0, executing the emitted instructions (ptrtoint, lshr by 48, and 1, negate,
  the offset and its shift by 49, and, add, inttoptr) leaves in the last of them, the
  inttoptr, the value of the GEP itself, whatever the offset is: the indices may be
  constants or any values of the store.
\<close>

theorem identity_law:
  assumes "distinct_insts f" and "terminated f"
    and "find_inst f g = Some (X, G)" and "ikind G = GEP SrcPtr idxs vec"
    and "\<not> hasAllZeroIndices idxs" and "\<not> isVtableGep f SrcPtr idxs" and "\<not> vec"
    and "\<not> bit (s (VInst g)) 48"
  shows "\<exists>f'. runOnFunc_body f g = Some (Inr f')
           \<and> new_insts f f' \<noteq> []
           \<and> isIntToPtr (ikind (last (new_insts f f')))
           \<and> exec s (new_insts f f') (VInst (iref (last (new_insts f f')))) = s (VInst g)"
proof -
  define n where "n = fresh_inst f"
  obtain bs1 bs2 p I q mid Shifted where
    d: "blocks f = bs1 @ X # bs2" "insts X = p @ G # I # q" "iref G = g"
    and r: "runOnFunc_body f g =
               Some (Inr (tag_result f bs1 X bs2 (p @ [G])
                            (tag_seq n g (name_prefix (iname G)) mid Shifted)
                            (I # q) g (VInst (n + 6 + length mid))))"
    and m: "map iref mid = [n + 4 ..< n + 4 + length mid]"
    using body_rewrites [OF assms(1-7)] unfolding n_def by blast
  let ?new = "tag_seq n g (name_prefix (iname G)) mid Shifted"
  let ?f' = "tag_result f bs1 X bs2 (p @ [G]) ?new (I # q) g (VInst (n + 6 + length mid))"
  have gl: "g < n" unfolding n_def by (rule find_inst_lt_fresh [OF assms(3)])
  have ni: "new_insts f ?f' = ?new"
    by (rule new_insts_tag_result [OF d(1), where k = "7 + length mid"])
       (use d(2) tag_seq_refs [OF m] in \<open>simp_all add: n_def add.assoc\<close>)
  have ne: "?new \<noteq> []" by (simp add: tag_seq_def tag_head_def)
  have lk: "isIntToPtr (ikind (last ?new))" by (simp add: tag_seq_def tag_tail_def)
  have "exec s ?new (VInst (iref (last ?new))) = s (VInst g)"
    unfolding last_tag_seq using exec_tag_seq [OF gl m, of s] assms(8) by simp
  then show ?thesis using r ni ne lk by (intro exI [of _ ?f']) simp
qed

theorem identity_law_witness:
  "distinct_insts ex_fn \<and> terminated ex_fn \<and> \<not> bit (4096 :: 64 word) 48
   \<and> (\<exists>f'. runOnFunc_body ex_fn 10 = Some (Inr f')
         \<and> new_insts ex_fn f' \<noteq> []
         \<and> isIntToPtr (ikind (last (new_insts ex_fn f')))
         \<and> exec (\<lambda>v. 4096) (new_insts ex_fn f') (VInst (iref (last (new_insts ex_fn f')))) = 4096)"
proof -
  have h1: "distinct_insts ex_fn" by (simp add: distinct_insts_def all_insts_def ex_fn_def)
  have h2: "terminated ex_fn" by (simp add: terminated_def ex_fn_def)
  have h3: "find_inst ex_fn 10 = Some (hd (blocks ex_fn),
              \<lparr>iref = 10, iname = ''a'', ikind = GEP (VArg ''p'') [(VConstInt 1, 8)] False\<rparr>)"
    by (simp add: find_inst_def ex_fn_def)
  have h4: "ikind \<lparr>iref = 10, iname = ''a'', ikind = GEP (VArg ''p'') [(VConstInt 1, 8)] False\<rparr>
              = GEP (VArg ''p'') [(VConstInt 1, 8)] False" by simp
  have h7: "\<not> False" by simp
  have h5: "\<not> hasAllZeroIndices [(VConstInt 1, 8)]" by (simp add: hasAllZeroIndices_def)
  have h6: "\<not> isVtableGep ex_fn (VArg ''p'') [(VConstInt 1, 8)]"
    by (simp add: isVtableGep_def hasName_def)
  have h8: "\<not> bit ((\<lambda>v. 4096 :: 64 word) (VInst 10)) 48" by simp
  show ?thesis
    using identity_law [OF h1 h2 h3 h4 h5 h6 h7 h8] h1 h2 by simp
qed

text \<open>
  C2. Offset-embedding law: for a rewritten GEP whose indices fold to the constant byte
  offset \<open>off\<close> and any store in which bit 48 of the GEP's pointer value is 1, executing
  the emitted instructions leaves in the inttoptr the GEP's value plus \<open>off\<close> shifted left
  by 49, in 64-bit arithmetic: as unsigned numbers, the sum modulo \<open>2 ^ 64\<close>.
\<close>

theorem offset_embedding_law:
  assumes "distinct_insts f" and "terminated f"
    and "find_inst f g = Some (X, G)" and "ikind G = GEP SrcPtr idxs vec"
    and "\<not> hasAllZeroIndices idxs" and "\<not> isVtableGep f SrcPtr idxs" and "\<not> vec"
    and "accumulateConstantOffset idxs 0 = Some off"
    and "bit (s (VInst g)) 48"
  shows "\<exists>f'. runOnFunc_body f g = Some (Inr f')
           \<and> new_insts f f' \<noteq> []
           \<and> isIntToPtr (ikind (last (new_insts f f')))
           \<and> exec s (new_insts f f') (VInst (iref (last (new_insts f f'))))
               = s (VInst g) + push_bit 49 off
           \<and> unat (exec s (new_insts f f') (VInst (iref (last (new_insts f f')))))
               = (unat (s (VInst g)) + unat off * 2 ^ 49) mod 2 ^ 64"
proof -
  define n where "n = fresh_inst f"
  obtain bs1 bs2 p I q mid Shifted where
    d: "blocks f = bs1 @ X # bs2" "insts X = p @ G # I # q" "iref G = g"
    and r: "runOnFunc_body f g =
               Some (Inr (tag_result f bs1 X bs2 (p @ [G])
                            (tag_seq n g (name_prefix (iname G)) mid Shifted)
                            (I # q) g (VInst (n + 6 + length mid))))"
    and m: "map iref mid = [n + 4 ..< n + 4 + length mid]"
    and c: "\<forall>c. accumulateConstantOffset idxs 0 = Some c
                  \<longrightarrow> mid = [] \<and> Shifted = VConstInt (push_bit 49 c)"
    using body_rewrites [OF assms(1-7)] unfolding n_def by blast
  have sh: "Shifted = VConstInt (push_bit 49 off)" using c assms(8) by simp
  let ?new = "tag_seq n g (name_prefix (iname G)) mid Shifted"
  let ?f' = "tag_result f bs1 X bs2 (p @ [G]) ?new (I # q) g (VInst (n + 6 + length mid))"
  have gl: "g < n" unfolding n_def by (rule find_inst_lt_fresh [OF assms(3)])
  have ni: "new_insts f ?f' = ?new"
    by (rule new_insts_tag_result [OF d(1), where k = "7 + length mid"])
       (use d(2) tag_seq_refs [OF m] in \<open>simp_all add: n_def add.assoc\<close>)
  have ne: "?new \<noteq> []" by (simp add: tag_seq_def tag_head_def)
  have lk: "isIntToPtr (ikind (last ?new))" by (simp add: tag_seq_def tag_tail_def)
  have ex: "exec s ?new (VInst (iref (last ?new))) = s (VInst g) + push_bit 49 off"
    unfolding last_tag_seq using exec_tag_seq [OF gl m, of s] assms(9) by (simp add: sh)
  have "unat (s (VInst g) + push_bit 49 off)
          = (unat (s (VInst g)) + unat (push_bit 49 off)) mod 2 ^ 64"
    by (simp add: unat_word_ariths)
  also have "unat (push_bit 49 off) = (unat off * 2 ^ 49) mod 2 ^ 64"
  proof -
    have "unat (push_bit 49 off) = take_bit LENGTH(64) (push_bit 49 (unat off))"
      by (rule unsigned_push_bit_eq)
    then show ?thesis by (simp add: take_bit_eq_mod push_bit_eq_mult)
  qed
  finally have un: "unat (s (VInst g) + push_bit 49 off)
                      = (unat (s (VInst g)) + unat off * 2 ^ 49) mod 2 ^ 64"
    by (simp add: mod_add_right_eq)
  show ?thesis using r ni ne lk ex un by (intro exI [of _ ?f']) simp
qed

theorem offset_embedding_law_witness:
  "distinct_insts ex_fn \<and> terminated ex_fn \<and> bit (2 ^ 48 + 4096 :: 64 word) 48
   \<and> accumulateConstantOffset [(VConstInt 1, 8)] 0 = Some 8
   \<and> (\<exists>f'. runOnFunc_body ex_fn 10 = Some (Inr f')
         \<and> exec (\<lambda>v. 2 ^ 48 + 4096) (new_insts ex_fn f') (VInst (iref (last (new_insts ex_fn f'))))
             = 2 ^ 48 + 4096 + push_bit 49 8)"
proof -
  have h1: "distinct_insts ex_fn" by (simp add: distinct_insts_def all_insts_def ex_fn_def)
  have h2: "terminated ex_fn" by (simp add: terminated_def ex_fn_def)
  have h3: "find_inst ex_fn 10 = Some (hd (blocks ex_fn),
              \<lparr>iref = 10, iname = ''a'', ikind = GEP (VArg ''p'') [(VConstInt 1, 8)] False\<rparr>)"
    by (simp add: find_inst_def ex_fn_def)
  have h4: "ikind \<lparr>iref = 10, iname = ''a'', ikind = GEP (VArg ''p'') [(VConstInt 1, 8)] False\<rparr>
              = GEP (VArg ''p'') [(VConstInt 1, 8)] False" by simp
  have h7: "\<not> False" by simp
  have h5: "\<not> hasAllZeroIndices [(VConstInt 1, 8)]" by (simp add: hasAllZeroIndices_def)
  have h6: "\<not> isVtableGep ex_fn (VArg ''p'') [(VConstInt 1, 8)]"
    by (simp add: isVtableGep_def hasName_def)
  have h8: "accumulateConstantOffset [(VConstInt 1, 8)] 0 = Some 8" by simp
  have h9: "bit ((\<lambda>v. 2 ^ 48 + 4096 :: 64 word) (VInst 10)) 48" by (simp add: bit_iff_odd_drop_bit)
  have b: "bit (2 ^ 48 + 4096 :: 64 word) 48" using h9 by simp
  show ?thesis
    using offset_embedding_law [OF h1 h2 h3 h4 h5 h6 h7 h8 h9] h1 h2 h8 b by auto
qed

text \<open>
  C5. Eligibility filter: \<open>shouldInstrument\<close> is true exactly when the function has a body
  (it has blocks and is not a declaration), is not available-externally, has a name that
  does not start with \<open>__canonptr_\<close>, does not carry the skip-instrumentation attribute
  and carries the opt-in attribute. It is a function of the function's state alone and
  returns nothing but the answer.
\<close>

theorem shouldInstrument_iff:
  "shouldInstrument f =
     ((blocks f \<noteq> [] \<and> \<not> isDeclaration f)
      \<and> flinkage f \<noteq> AvailableExternallyLinkage
      \<and> \<not> starts_with (fname f) ''__canonptr_''
      \<and> \<not> hasFnAttribute f DisableSanitizerInstrumentation
      \<and> hasFnAttribute f CanonPtr)"
  by (simp add: shouldInstrument_def)

theorem shouldInstrument_iff_witness:
  "shouldInstrument ex_fn \<and> \<not> shouldInstrument (ex_fn\<lparr>fname := ''__canonptr_init''\<rparr>)
   \<and> \<not> shouldInstrument (ex_fn\<lparr>attrs := [DisableSanitizerInstrumentation, CanonPtr]\<rparr>)
   \<and> \<not> shouldInstrument (ex_fn\<lparr>attrs := []\<rparr>)
   \<and> \<not> shouldInstrument (ex_fn\<lparr>flinkage := AvailableExternallyLinkage\<rparr>)
   \<and> \<not> shouldInstrument (ex_fn\<lparr>isDeclaration := True\<rparr>)
   \<and> \<not> shouldInstrument (ex_fn\<lparr>blocks := []\<rparr>)"
  using shouldInstrument_iff [of ex_fn]
    shouldInstrument_iff [of "ex_fn\<lparr>fname := ''__canonptr_init''\<rparr>"]
    shouldInstrument_iff [of "ex_fn\<lparr>attrs := [DisableSanitizerInstrumentation, CanonPtr]\<rparr>"]
    shouldInstrument_iff [of "ex_fn\<lparr>attrs := []\<rparr>"]
    shouldInstrument_iff [of "ex_fn\<lparr>flinkage := AvailableExternallyLinkage\<rparr>"]
    shouldInstrument_iff [of "ex_fn\<lparr>isDeclaration := True\<rparr>"]
    shouldInstrument_iff [of "ex_fn\<lparr>blocks := []\<rparr>"]
  by (simp add: ex_fn_def hasFnAttribute_def)

text \<open>
  C6. Skip, not fail: a scanned GEP whose indices are all zero, or that is vtable-like under
  any one of the three heuristics (a pointer operand named \<open>vtable...\<close>, exactly one index
  named \<open>vbase.offset...\<close>, a global variable named \<open>_ZTV...\<close>), or whose result is a vector
  of pointers, is left alone: the loop body returns the function as it was, so nothing is
  emitted and every user still refers to the GEP.
\<close>

theorem skip_not_fail:
  assumes "find_inst f g = Some (X, G)" and "ikind G = GEP SrcPtr idxs vec"
    and "hasAllZeroIndices idxs
         \<or> starts_with (getName f SrcPtr) ''vtable''
         \<or> (length idxs = 1 \<and> starts_with (getName f (fst (hd idxs))) ''vbase.offset'')
         \<or> (\<exists>n. SrcPtr = VGlobalVar n \<and> starts_with n ''_ZTV'')
         \<or> vec"
  shows "runOnFunc_body f g = Some (Inr f)"
proof -
  have v: "isVtableGep f SrcPtr idxs"
    if "starts_with (getName f SrcPtr) ''vtable''
         \<or> (length idxs = 1 \<and> starts_with (getName f (fst (hd idxs))) ''vbase.offset'')
         \<or> (\<exists>n. SrcPtr = VGlobalVar n \<and> starts_with n ''_ZTV'')"
    using that starts_with_nonempty [of "getName f SrcPtr" "''vtable''"]
      starts_with_nonempty [of "getName f (fst (hd idxs))" "''vbase.offset''"]
    by (auto simp: isVtableGep_def hasName_def)
  show ?thesis
    using assms v by (auto simp: runOnFunc_body_def)
qed

theorem skip_not_fail_witness:
  "runOnFunc_body (ex_with (GEP (VArg ''p'') [(VConstInt 0, 8), (VConstInt 0, 4)] False)) 10
     = Some (Inr (ex_with (GEP (VArg ''p'') [(VConstInt 0, 8), (VConstInt 0, 4)] False)))
   \<and> runOnFunc_body (ex_with (GEP (VArg ''vtable.1'') [(VConstInt 2, 8)] False)) 10
     = Some (Inr (ex_with (GEP (VArg ''vtable.1'') [(VConstInt 2, 8)] False)))
   \<and> runOnFunc_body (ex_with (GEP (VArg ''p'') [(VArg ''vbase.offset'', 1)] False)) 10
     = Some (Inr (ex_with (GEP (VArg ''p'') [(VArg ''vbase.offset'', 1)] False)))
   \<and> runOnFunc_body (ex_with (GEP (VGlobalVar ''_ZTV1A'') [(VConstInt 0, 24), (VConstInt 2, 8)] False)) 10
     = Some (Inr (ex_with (GEP (VGlobalVar ''_ZTV1A'') [(VConstInt 0, 24), (VConstInt 2, 8)] False)))
   \<and> runOnFunc_body (ex_with (GEP (VArg ''p'') [(VConstInt 1, 8)] True)) 10
     = Some (Inr (ex_with (GEP (VArg ''p'') [(VConstInt 1, 8)] True)))"
proof -
  have f: "find_inst (ex_with k) 10
             = Some (hd (blocks (ex_with k)), \<lparr>iref = 10, iname = ''a'', ikind = k\<rparr>)" for k
    by (simp add: find_inst_def ex_with_def)
  show ?thesis
    using skip_not_fail [OF f, of "GEP (VArg ''p'') [(VConstInt 0, 8), (VConstInt 0, 4)] False"
        "VArg ''p''" "[(VConstInt 0, 8), (VConstInt 0, 4)]" False]
      skip_not_fail [OF f, of "GEP (VArg ''vtable.1'') [(VConstInt 2, 8)] False"
        "VArg ''vtable.1''" "[(VConstInt 2, 8)]" False]
      skip_not_fail [OF f, of "GEP (VArg ''p'') [(VArg ''vbase.offset'', 1)] False"
        "VArg ''p''" "[(VArg ''vbase.offset'', 1)]" False]
      skip_not_fail [OF f, of "GEP (VGlobalVar ''_ZTV1A'') [(VConstInt 0, 24), (VConstInt 2, 8)] False"
        "VGlobalVar ''_ZTV1A''" "[(VConstInt 0, 24), (VConstInt 2, 8)]" False]
      skip_not_fail [OF f, of "GEP (VArg ''p'') [(VConstInt 1, 8)] True"
        "VArg ''p''" "[(VConstInt 1, 8)]" True]
    by (simp add: hasAllZeroIndices_def)
qed

text \<open>
  C7. Constant folding: for a rewritten GEP whose every index is a compile-time constant,
  the offset folds to the single 64-bit constant \<open>byte_offset\<close> (the sum of index times
  element size, so a negative index gives a negative displacement), and exactly seven
  instructions are emitted: the mask is and-ed with the constant offset already shifted by
  49. No multiply is emitted, and the only add is the final one that adds the masked
  constant to the pointer's integer value: nothing computes the offset at run time.
\<close>

theorem constant_folding:
  assumes "distinct_insts f" and "terminated f"
    and "find_inst f g = Some (X, G)" and "ikind G = GEP SrcPtr idxs vec"
    and "\<not> hasAllZeroIndices idxs" and "\<not> isVtableGep f SrcPtr idxs" and "\<not> vec"
    and "list_all (\<lambda>(v, sz). isConstInt v) idxs"
  shows "accumulateConstantOffset idxs 0 = Some (byte_offset idxs)
         \<and> (\<exists>f'. runOnFunc_body f g = Some (Inr f')
               \<and> map ikind (new_insts f f') =
                   [Cast OpPtrToInt (VInst g),
                    BinOp OpLShr (VInst (fresh_inst f)) (VConstInt 48),
                    BinOp OpAnd (VInst (fresh_inst f + 1)) (VConstInt 1),
                    BinOp OpSub (VConstInt 0) (VInst (fresh_inst f + 2)),
                    BinOp OpAnd (VConstInt (push_bit 49 (byte_offset idxs)))
                      (VInst (fresh_inst f + 3)),
                    BinOp OpAdd (VInst (fresh_inst f)) (VInst (fresh_inst f + 4)),
                    Cast OpIntToPtr (VInst (fresh_inst f + 5))])"
proof -
  have acc: "accumulateConstantOffset idxs 0 = Some (byte_offset idxs)"
    using accumulateConstantOffset_all_const [OF assms(8), of 0] by simp
  obtain f' pre post mid Shifted where
    r: "runOnFunc_body f g = Some (Inr f')"
    and ni: "new_insts f f' = tag_seq (fresh_inst f) g (name_prefix (iname G)) mid Shifted"
    and c: "\<forall>c. accumulateConstantOffset idxs 0 = Some c
                  \<longrightarrow> mid = [] \<and> Shifted = VConstInt (push_bit 49 c)"
    using rewrite_flat [OF assms(1-7)] by blast
  have "mid = []" "Shifted = VConstInt (push_bit 49 (byte_offset idxs))"
    using c acc by simp_all
  then have k: "map ikind (new_insts f f') =
                   [Cast OpPtrToInt (VInst g),
                    BinOp OpLShr (VInst (fresh_inst f)) (VConstInt 48),
                    BinOp OpAnd (VInst (fresh_inst f + 1)) (VConstInt 1),
                    BinOp OpSub (VConstInt 0) (VInst (fresh_inst f + 2)),
                    BinOp OpAnd (VConstInt (push_bit 49 (byte_offset idxs)))
                      (VInst (fresh_inst f + 3)),
                    BinOp OpAdd (VInst (fresh_inst f)) (VInst (fresh_inst f + 4)),
                    Cast OpIntToPtr (VInst (fresh_inst f + 5))]"
    unfolding ni by (simp add: tag_seq_def tag_head_def tag_tail_def)
  show ?thesis
    apply (rule conjI [OF acc], rule exI [of _ f'])
    using r k by (simp only: simp_thms)
qed

theorem constant_folding_witness:
  "list_all (\<lambda>(v, sz). isConstInt v) [(VConstInt (- 1), 8 :: nat)]
   \<and> sint (byte_offset [(VConstInt (- 1), 8)]) = - 8
   \<and> (\<exists>f'. runOnFunc_body (ex_with (GEP (VArg ''p'') [(VConstInt (- 1), 8)] False)) 10
                = Some (Inr f')
         \<and> map ikind (new_insts (ex_with (GEP (VArg ''p'') [(VConstInt (- 1), 8)] False)) f') =
                   [Cast OpPtrToInt (VInst 10),
                    BinOp OpLShr (VInst 13) (VConstInt 48),
                    BinOp OpAnd (VInst 14) (VConstInt 1),
                    BinOp OpSub (VConstInt 0) (VInst 15),
                    BinOp OpAnd (VConstInt (push_bit 49 (- 8))) (VInst 16),
                    BinOp OpAdd (VInst 13) (VInst 17),
                    Cast OpIntToPtr (VInst 18)])"
proof -
  let ?k = "GEP (VArg ''p'') [(VConstInt (- 1), 8)] False"
  have h1: "distinct_insts (ex_with ?k)" by (simp add: distinct_insts_def all_insts_def ex_with_def)
  have h2: "terminated (ex_with ?k)" by (simp add: terminated_def ex_with_def)
  have h3: "find_inst (ex_with ?k) 10
              = Some (hd (blocks (ex_with ?k)), \<lparr>iref = 10, iname = ''a'', ikind = ?k\<rparr>)"
    by (simp add: find_inst_def ex_with_def)
  have h4: "ikind \<lparr>iref = 10, iname = ''a'', ikind = ?k\<rparr> = ?k" by simp
  have h5: "\<not> hasAllZeroIndices [(VConstInt (- 1), 8)]" by (simp add: hasAllZeroIndices_def)
  have h6: "\<not> isVtableGep (ex_with ?k) (VArg ''p'') [(VConstInt (- 1), 8)]"
    by (simp add: isVtableGep_def hasName_def)
  have h7: "\<not> False" by simp
  have h8: "list_all (\<lambda>(v, sz). isConstInt v) [(VConstInt (- 1), 8 :: nat)]" by simp
  have b: "byte_offset [(VConstInt (- 1), 8)] = - 8" by (simp add: byte_offset_def)
  have fr: "fresh_inst (ex_with ?k) = 13"
    by (simp add: fresh_inst_def inst_refs_def all_insts_def ex_with_def)
  show ?thesis
    using constant_folding [OF h1 h2 h3 h4 h5 h6 h7 h8] h8 by (simp add: b fr)
qed

text \<open>
  C8. Consumer-snapshot framing: the users of a rewritten GEP are read from the function as
  it is before anything is emitted. After the rewrite the users of the new pointer, the
  last emitted instruction, are exactly those users; every instruction the function had is
  still there, the GEP included, in the same order and changed only in that its operands
  that were the GEP are now the new pointer; no emitted instruction has the new pointer as
  an operand, and the first of them, the ptrtoint, still has the GEP as its operand.
\<close>

theorem consumer_snapshot_framing:
  assumes "distinct_insts f" and "terminated f"
    and "find_inst f g = Some (X, G)" and "ikind G = GEP SrcPtr idxs vec"
    and "\<not> hasAllZeroIndices idxs" and "\<not> isVtableGep f SrcPtr idxs" and "\<not> vec"
  shows "\<exists>f'. runOnFunc_body f g = Some (Inr f')
           \<and> users f' (iref (last (new_insts f f'))) = users f g
           \<and> filter (\<lambda>x. iref x < fresh_inst f) (all_insts f')
               = map (retarget g (VInst (iref (last (new_insts f f'))))) (all_insts f)
           \<and> (\<forall>x\<in>set (new_insts f f').
                  VInst (iref (last (new_insts f f'))) \<notin> set (operands (ikind x)))
           \<and> ikind (hd (new_insts f f')) = Cast OpPtrToInt (VInst g)
           \<and> g \<in> iref ` set (all_insts f')"
proof -
  define n where "n = fresh_inst f"
  obtain f' pre post mid Shifted where
    r: "runOnFunc_body f g = Some (Inr f')"
    and a: "all_insts f = pre @ G # post" "iref G = g"
    and a': "all_insts f' = map (retarget g (VInst (n + 6 + length mid))) (pre @ [G])
                 @ tag_seq n g (name_prefix (iname G)) mid Shifted
                 @ map (retarget g (VInst (n + 6 + length mid))) post"
    and ni: "new_insts f f' = tag_seq n g (name_prefix (iname G)) mid Shifted"
    and m: "map iref mid = [n + 4 ..< n + 4 + length mid]"
      "\<forall>x\<in>set mid. isBinOp (ikind x) \<and> (\<forall>v\<in>set (operands (ikind x)). known (iref x) v)"
      "known (n + 4 + length mid) Shifted"
    using rewrite_flat [OF assms(1-7)] unfolding n_def by blast
  let ?np = "n + 6 + length mid"
  let ?new = "tag_seq n g (name_prefix (iname G)) mid Shifted"
  have np: "iref (last (new_insts f f')) = ?np" unfolding ni by (rule last_tag_seq)
  have gl: "g < n" unfolding n_def by (rule find_inst_lt_fresh [OF assms(3)])
  have s1: "set (pre @ [G]) \<subseteq> set (all_insts f)" and s2: "set post \<subseteq> set (all_insts f)"
    using a(1) by auto
  have le: "fresh_inst f \<le> ?np" by (simp add: n_def)
  have nm: "\<forall>x\<in>set ?new. VInst ?np \<notin> set (operands (ikind x))"
    by (rule tag_seq_not_mention_last [OF gl m])
  have refs: "map iref ?new = [n ..< n + 7 + length mid]" by (rule tag_seq_refs [OF m(1)])
  have u: "users f' ?np = users f g"
  proof -
    have "users f' ?np = users_in (map (retarget g (VInst ?np)) (pre @ [G])) ?np
            @ users_in ?new ?np @ users_in (map (retarget g (VInst ?np)) post) ?np"
      by (simp only: users_flat a' users_in_append)
    also have "users_in (map (retarget g (VInst ?np)) (pre @ [G])) ?np = users_in (pre @ [G]) g"
      by (rule users_in_retarget_fresh [OF s1 le]) (use gl n_def in simp)
    also have "users_in (map (retarget g (VInst ?np)) post) ?np = users_in post g"
      by (rule users_in_retarget_fresh [OF s2 le]) (use gl n_def in simp)
    also have "users_in ?new ?np = []" using nm by (simp add: users_in_empty_iff)
    finally show ?thesis by (simp only: users_flat a(1) users_in_append [symmetric] append_Cons append_Nil append_assoc)
  qed
  have fo: "filter (\<lambda>x. iref x < fresh_inst f) (all_insts f')
              = map (retarget g (VInst ?np)) (all_insts f)"
  proof -
    have "\<forall>x\<in>set ?new. \<not> iref x < fresh_inst f"
      using refs_range [OF refs] unfolding n_def by (auto simp: not_less)
    then have fn: "filter (\<lambda>x. iref x < fresh_inst f) ?new = []" by (simp add: filter_empty_conv)
    have "filter (\<lambda>x. iref x < fresh_inst f) (all_insts f')
            = filter (\<lambda>x. iref x < fresh_inst f) (map (retarget g (VInst ?np)) (pre @ [G]))
              @ filter (\<lambda>x. iref x < fresh_inst f) ?new
              @ filter (\<lambda>x. iref x < fresh_inst f) (map (retarget g (VInst ?np)) post)"
      by (simp only: a' filter_append)
    also have "\<dots> = map (retarget g (VInst ?np)) (pre @ [G]) @ []
                      @ map (retarget g (VInst ?np)) post"
      by (simp only: filter_old_retarget [OF s1] filter_old_retarget [OF s2] fn)
    also have "\<dots> = map (retarget g (VInst ?np)) (all_insts f)" by (simp add: a(1))
    finally show ?thesis .
  qed
  have hd: "ikind (hd ?new) = Cast OpPtrToInt (VInst g)"
    by (simp add: tag_seq_def tag_head_def)
  have "retarget g (VInst ?np) G \<in> set (all_insts f')" by (simp add: a')
  then have "iref (retarget g (VInst ?np) G) \<in> iref ` set (all_insts f')" by (rule imageI)
  then have gi: "g \<in> iref ` set (all_insts f')" using a(2) by simp
  show ?thesis
    apply (rule exI [of _ f'])
    using r u fo nm hd gi unfolding ni last_tag_seq by (simp only: simp_thms)
qed

theorem consumer_snapshot_framing_witness:
  "users ex_fn 10 = [11]
   \<and> (\<exists>f'. runOnFunc_body ex_fn 10 = Some (Inr f')
         \<and> users f' (iref (last (new_insts ex_fn f'))) = [11]
         \<and> ikind (hd (new_insts ex_fn f')) = Cast OpPtrToInt (VInst 10)
         \<and> 10 \<in> iref ` set (all_insts f'))"
proof -
  have h1: "distinct_insts ex_fn" by (simp add: distinct_insts_def all_insts_def ex_fn_def)
  have h2: "terminated ex_fn" by (simp add: terminated_def ex_fn_def)
  have h3: "find_inst ex_fn 10 = Some (hd (blocks ex_fn),
              \<lparr>iref = 10, iname = ''a'', ikind = GEP (VArg ''p'') [(VConstInt 1, 8)] False\<rparr>)"
    by (simp add: find_inst_def ex_fn_def)
  have h4: "ikind \<lparr>iref = 10, iname = ''a'', ikind = GEP (VArg ''p'') [(VConstInt 1, 8)] False\<rparr>
              = GEP (VArg ''p'') [(VConstInt 1, 8)] False" by simp
  have h5: "\<not> hasAllZeroIndices [(VConstInt 1, 8)]" by (simp add: hasAllZeroIndices_def)
  have h6: "\<not> isVtableGep ex_fn (VArg ''p'') [(VConstInt 1, 8)]"
    by (simp add: isVtableGep_def hasName_def)
  have h7: "\<not> False" by simp
  have u: "users ex_fn 10 = [11]" by (simp add: users_def all_insts_def ex_fn_def)
  obtain f' where "runOnFunc_body ex_fn 10 = Some (Inr f')"
    "users f' (iref (last (new_insts ex_fn f'))) = users ex_fn 10"
    "ikind (hd (new_insts ex_fn f')) = Cast OpPtrToInt (VInst 10)"
    "10 \<in> iref ` set (all_insts f')"
    using consumer_snapshot_framing [OF h1 h2 h3 h4 h5 h6 h7] by blast
  then show ?thesis using u by (intro conjI exI [of _ f']) simp_all
qed



text \<open>
  C4. Exceptional-call edge splitting: for an invoke \<open>i\<close> of block \<open>X\<close> with normal
  destination \<open>T\<close>, in a function whose instructions and blocks are distinct objects and
  whose block \<open>T\<close> has its PHI nodes at its head, the resolver returns; the block \<open>B\<close> it
  makes is new and holds one instruction, the jump to \<open>T\<close>; the invoke now has \<open>B\<close> as its
  normal destination; every instruction of \<open>T\<close> is as before but for the PHI entries keyed
  by \<open>X\<close>, which are keyed by \<open>B\<close> with their values unchanged; \<open>B\<close> has exactly one
  predecessor, \<open>X\<close>, and one successor, \<open>T\<close>; and the insertion point returned is the jump
  of \<open>B\<close>, so that new instructions go into \<open>B\<close> before it.
\<close>

theorem invoke_edge_split:
  assumes "distinct_insts f" and "distinct_blocks f"
    and "find_inst f i = Some (X, I)" and "ikind I = Invoke args T U"
    and "find_block f T = Some D"
    and "list_all (\<lambda>x. \<not> isPHI (ikind x)) (rest_insts (insts D))"
  shows "\<exists>f' NB D'.
           getInsertPointAfter f i = Some (Inr (f', fresh_inst f))
           \<and> find_block f (fresh_block f) = None
           \<and> find_block f' (fresh_block f) = Some NB
           \<and> insts NB = [\<lparr>iref = fresh_inst f, iname = [], ikind = Branch T\<rparr>]
           \<and> find_block f' T = Some D'
           \<and> insts D' = map (\<lambda>x. rekey_phi (bref X) (fresh_block f) (redirect i (fresh_block f) x))
                            (insts D)
           \<and> (\<exists>X'\<in>set (blocks f'). bref X' = bref X
                  \<and> I\<lparr>ikind := Invoke args (fresh_block f) U\<rparr> \<in> set (insts X'))
           \<and> predecessors f' (fresh_block f) = [bref X]
           \<and> successors NB = [T]"
proof -
  let ?B = "fresh_block f"
  let ?r = "redirect i ?B"
  obtain f' bs1 bs2 where
    g: "getInsertPointAfter f i = Some (Inr (f', fresh_inst f))"
    and b: "blocks f = bs1 @ D # bs2"
    and b': "blocks f' = map (map_block_insts ?r) bs1 @ new_block f T # patched_dest f i X D
                           # map (map_block_insts ?r) bs2"
    and fB: "find_block f' ?B = Some (new_block f T)"
    and fT: "find_block f' T = Some (patched_dest f i X D)"
    and pr: "predecessors f' ?B = [bref X]"
    using invoke_result_facts [OF assms(1-5)] by blast
  have XI: "X \<in> set (blocks f)" "I \<in> set (insts X)" "iref I = i"
    using find_inst_block [OF assms(3)] by simp_all
  have none: "find_block f ?B = None"
  proof (cases "find_block f ?B")
    case (Some Y)
    then obtain c1 c2 where "blocks f = c1 @ Y # c2" "bref Y = ?B"
      using lookup_block_split unfolding find_block_def by blast
    then show ?thesis using bref_lt_fresh [of Y f] by auto
  qed simp
  have rI: "?r I = I\<lparr>ikind := Invoke args ?B U\<rparr>"
    using assms(4) XI(3) by (simp add: redirect_def)
  have ins: "insts (patched_dest f i X D)
               = map (\<lambda>x. rekey_phi (bref X) ?B (?r x)) (insts D)"
  proof -
    have l: "map (\<lambda>x. rekey_phi (bref X) ?B (?r x)) (leading_phis (insts D))
               = map (rekey_phi (bref X) ?B) (leading_phis (insts D))"
    proof (rule map_cong [OF refl])
      fix x assume "x \<in> set (leading_phis (insts D))"
      then have "isPHI (ikind x)" by (rule leading_phis_all)
      then have "?r x = x" by (intro redirect_not_invoke) (cases "ikind x"; simp)
      then show "rekey_phi (bref X) ?B (?r x) = rekey_phi (bref X) ?B x" by simp
    qed
    have r: "map (\<lambda>x. rekey_phi (bref X) ?B (?r x)) (rest_insts (insts D))
               = map ?r (rest_insts (insts D))"
    proof (rule map_cong [OF refl])
      fix x assume "x \<in> set (rest_insts (insts D))"
      then have "\<not> isPHI (ikind x)" using assms(6) by (simp add: list_all_iff)
      then have "\<not> isPHI (ikind (?r x))" by simp
      then show "rekey_phi (bref X) ?B (?r x) = ?r x"
        by (cases "ikind (?r x)") (simp_all add: rekey_phi_def)
    qed
    have "map (\<lambda>x. rekey_phi (bref X) ?B (?r x)) (insts D)
            = map (\<lambda>x. rekey_phi (bref X) ?B (?r x)) (leading_phis (insts D) @ rest_insts (insts D))"
      by (simp only: leading_rest)
    then show ?thesis by (simp add: patched_dest_def l r)
  qed
  have mem: "\<exists>X'\<in>set (blocks f'). bref X' = bref X \<and> ?r I \<in> set (insts X')"
  proof -
    consider "X \<in> set bs1" | "X = D" | "X \<in> set bs2" using XI(1) b by auto
    then show ?thesis
    proof cases
      case 1
      then show ?thesis using XI(2) b'
        by (intro bexI [of _ "map_block_insts ?r X"]) (auto simp: map_block_insts_def)
    next
      case 2
      have "\<not> isPHI (ikind I)" using assms(4) by simp
      then have "I \<notin> set (leading_phis (insts D))" using leading_phis_all by blast
      then have "I \<in> set (rest_insts (insts D))"
        using XI(2) 2 leading_rest [of "insts D"] by (metis Un_iff set_append)
      then show ?thesis using 2 b'
        by (intro bexI [of _ "patched_dest f i X D"]) (auto simp: patched_dest_def)
    next
      case 3
      then show ?thesis using XI(2) b'
        by (intro bexI [of _ "map_block_insts ?r X"]) (auto simp: map_block_insts_def)
    qed
  qed
  have sc: "successors (new_block f T) = [T]" by (simp add: successors_def new_block_def)
  have nb: "insts (new_block f T) = [\<lparr>iref = fresh_inst f, iname = [], ikind = Branch T\<rparr>]"
    by (simp add: new_block_def)
  show ?thesis
    apply (rule exI [of _ f'], rule exI [of _ "new_block f T"],
        rule exI [of _ "patched_dest f i X D"])
    using g none fB nb fT ins mem pr sc unfolding rI by (simp only: simp_thms)
qed

theorem invoke_edge_split_witness:
  "distinct_insts ex_invoke \<and> distinct_blocks ex_invoke
   \<and> getInsertPointAfter ex_invoke 10 = Some (Inr (ex_invoke_split, 14))
   \<and> (\<exists>NB D'. find_block ex_invoke_split 4 = Some NB
         \<and> insts NB = [\<lparr>iref = 14, iname = [], ikind = Branch 2\<rparr>]
         \<and> find_block ex_invoke_split 2 = Some D'
         \<and> insts D' = [\<lparr>iref = 11, iname = ''m'', ikind = PHI [(VConstInt 7, 4), (VConstInt 8, 4)]\<rparr>,
                       \<lparr>iref = 12, iname = [], ikind = OtherTerm [VInst 11] []\<rparr>]
         \<and> predecessors ex_invoke_split 4 = [1]
         \<and> successors NB = [2])"
proof -
  have h1: "distinct_insts ex_invoke" by (simp add: distinct_insts_def all_insts_def ex_invoke_def)
  have h2: "distinct_blocks ex_invoke" by (simp add: distinct_blocks_def ex_invoke_def)
  have h3: "find_inst ex_invoke 10 = Some (hd (blocks ex_invoke),
              \<lparr>iref = 10, iname = ''c'', ikind = Invoke [] 2 3\<rparr>)"
    by (simp add: find_inst_def ex_invoke_def)
  have h4: "ikind \<lparr>iref = 10, iname = ''c'', ikind = Invoke [] 2 3\<rparr> = Invoke [] 2 3" by simp
  have h5: "find_block ex_invoke 2 = Some (blocks ex_invoke ! 1)"
    by (simp add: find_block_def ex_invoke_def)
  have fi: "fresh_inst ex_invoke = 14"
    by (simp add: fresh_inst_def inst_refs_def all_insts_def ex_invoke_def)
  have fb: "fresh_block ex_invoke = 4"
    by (simp add: fresh_block_def block_refs_def all_insts_def ex_invoke_def)
  have ev: "getInsertPointAfter ex_invoke 10 = Some (Inr (ex_invoke_split, 14))"
    by code_simp
  have h6: "list_all (\<lambda>x. \<not> isPHI (ikind x)) (rest_insts (insts (blocks ex_invoke ! 1)))"
    by (simp add: rest_insts_def ex_invoke_def)
  have bx: "bref (hd (blocks ex_invoke)) = 1" by (simp add: ex_invoke_def)
  have ds: "insts (blocks ex_invoke ! 1) =
              [\<lparr>iref = 11, iname = ''m'', ikind = PHI [(VConstInt 7, 1), (VConstInt 8, 1)]\<rparr>,
               \<lparr>iref = 12, iname = [], ikind = OtherTerm [VInst 11] []\<rparr>]"
    by (simp add: ex_invoke_def)
  obtain f' NB D' where r: "getInsertPointAfter ex_invoke 10 = Some (Inr (f', 14))"
    "find_block f' 4 = Some NB"
    "insts NB = [\<lparr>iref = 14, iname = [], ikind = Branch 2\<rparr>]"
    "find_block f' 2 = Some D'"
    "insts D' = map (\<lambda>x. rekey_phi 1 4 (redirect 10 4 x)) (insts (blocks ex_invoke ! 1))"
    "predecessors f' 4 = [1]" "successors NB = [2]"
    using invoke_edge_split [OF h1 h2 h3 h4 h5 h6] unfolding fi fb bx by blast
  have e: "f' = ex_invoke_split" using r(1) ev by simp
  have "insts D' = [\<lparr>iref = 11, iname = ''m'', ikind = PHI [(VConstInt 7, 4), (VConstInt 8, 4)]\<rparr>,
                       \<lparr>iref = 12, iname = [], ikind = OtherTerm [VInst 11] []\<rparr>]"
    unfolding r(5) ds by (simp add: rekey_phi_def redirect_def rekey_def)
  then show ?thesis
    using h1 h2 ev r(2,3,4,6,7) unfolding e by blast
qed

text \<open>
  C10. When a PHI node of the normal destination \<open>T\<close> has several entries keyed by the
  call's block \<open>X\<close>, the inner loop rekeys every one of them: after the resolver has run,
  each leading PHI node of \<open>T\<close> is the one it was with every entry keyed by \<open>X\<close> keyed by
  the new block and its value unchanged, and none has an entry keyed by \<open>X\<close>. The
  entries keep mirroring the edges. If every entry of the leading PHI nodes was keyed by a
  predecessor of \<open>T\<close> before, then so is every entry afterwards. And where the blocks have
  no terminator before their last instruction and the unwind destination of the invoke is
  not \<open>T\<close> itself: if the blocks that key the entries of each leading PHI node were exactly
  the predecessors of \<open>T\<close> before (\<open>X\<close> among them), they are exactly the predecessors of
  \<open>T\<close> afterwards, so every predecessor edge has its entry and every entry its edge.
\<close>

theorem phi_entries_rekeyed:
  assumes "distinct_insts f" and "distinct_blocks f"
    and "find_inst f i = Some (X, I)" and "ikind I = Invoke args T U"
    and "find_block f T = Some D"
  shows "\<exists>f' D'.
           getInsertPointAfter f i = Some (Inr (f', fresh_inst f))
           \<and> find_block f' T = Some D'
           \<and> leading_phis (insts D')
               = map (rekey_phi (bref X) (fresh_block f)) (leading_phis (insts D))
           \<and> (\<forall>x\<in>set (leading_phis (insts D')). bref X \<notin> set (incoming_blocks (ikind x)))
           \<and> ((\<forall>x\<in>set (leading_phis (insts D)).
                    set (incoming_blocks (ikind x)) \<subseteq> set (predecessors f T))
                \<longrightarrow> (\<forall>x\<in>set (leading_phis (insts D')).
                        set (incoming_blocks (ikind x)) \<subseteq> set (predecessors f' T)))
           \<and> (U \<noteq> T \<and> single_terminator f
                \<and> (\<forall>x\<in>set (leading_phis (insts D)).
                       set (incoming_blocks (ikind x)) = set (predecessors f T))
                \<longrightarrow> (\<forall>x\<in>set (leading_phis (insts D')).
                       set (incoming_blocks (ikind x)) = set (predecessors f' T)))"
proof -
  let ?B = "fresh_block f"
  let ?r = "redirect i ?B"
  let ?D' = "patched_dest f i X D"
  obtain f' bs1 bs2 where
    g: "getInsertPointAfter f i = Some (Inr (f', fresh_inst f))"
    and b: "blocks f = bs1 @ D # bs2"
    and b': "blocks f' = map (map_block_insts ?r) bs1 @ new_block f T # ?D'
                           # map (map_block_insts ?r) bs2"
    and fT: "find_block f' T = Some ?D'"
    using invoke_result_facts [OF assms(1-5)] by blast
  have XI: "X \<in> set (blocks f)" "I \<in> set (insts X)" "iref I = i"
    using find_inst_block [OF assms(3)] by simp_all
  have XB: "bref X \<noteq> ?B" using bref_lt_fresh [OF XI(1)] by simp
  have lp: "leading_phis (insts ?D') = map (rekey_phi (bref X) ?B) (leading_phis (insts D))"
    by (rule leading_phis_patched)
  have nx: "\<forall>x\<in>set (leading_phis (insts ?D')). bref X \<notin> set (incoming_blocks (ikind x))"
    unfolding lp using rekey_phi_incoming [OF XB] by auto
  have pB: "?B \<in> set (predecessors f' T)"
    unfolding predecessors_iff b'
    by (intro bexI [of _ "new_block f T"]) (simp_all add: new_block_def)
  obtain c1 c2 p q where d: "blocks f = c1 @ X # c2" "insts X = p @ I # q"
    using find_in_blocks_split assms(3) unfolding find_inst_def by blast
  have dist: "distinct (map iref (concat (map insts c1) @ p @ I # q @ concat (map insts c2)))"
    using assms(1) d(1,2) by (simp add: distinct_insts_def all_insts_def)
  have uniq: "\<And>Y y. Y \<in> set (blocks f) \<Longrightarrow> y \<in> set (insts Y) \<Longrightarrow> iref y = i \<Longrightarrow> Y = X"
  proof -
    fix Y y assume Y: "Y \<in> set (blocks f)" "y \<in> set (insts Y)" "iref y = i"
    have "i \<notin> iref ` set (concat (map insts c1))" "i \<notin> iref ` set (concat (map insts c2))"
      using dist XI(3) by auto
    then have "Y \<notin> set c1" "Y \<notin> set c2" using Y(2,3) by auto
    then show "Y = X" using Y(1) d(1) by auto
  qed
  have keep: "\<And>b. b \<in> set (predecessors f T) \<Longrightarrow> b \<noteq> bref X \<Longrightarrow> b \<in> set (predecessors f' T)"
  proof -
    fix b assume bp: "b \<in> set (predecessors f T)" and bx: "b \<noteq> bref X"
    then obtain Y y where Y: "Y \<in> set (blocks f)" "bref Y = b" "y \<in> set (insts Y)"
      "T \<in> set (successors_of (ikind y))"
      unfolding predecessors_iff by blast
    have "iref y \<noteq> i" using uniq [OF Y(1,3)] Y(2) bx by auto
    then have ry: "?r y = y" by (rule redirect_other)
    consider "Y \<in> set bs1 \<or> Y \<in> set bs2" | "Y = D" using Y(1) b by auto
    then show "b \<in> set (predecessors f' T)"
    proof cases
      case 1
      have "map_block_insts ?r Y \<in> set (blocks f')" using 1 b' by auto
      moreover have "y \<in> set (insts (map_block_insts ?r Y))"
        using Y(3) ry by (force simp: map_block_insts_def)
      ultimately show ?thesis
        unfolding predecessors_iff using Y(2,4)
        by (intro bexI [of _ "map_block_insts ?r Y"] conjI bexI [of _ y])
           (simp_all add: map_block_insts_def)
    next
      case 2
      have "\<not> isPHI (ikind y)" using Y(4) isPHI_no_succ by fastforce
      then have "y \<notin> set (leading_phis (insts D))" using leading_phis_all by blast
      then have "y \<in> set (rest_insts (insts D))"
        using Y(3) 2 leading_rest [of "insts D"] by (metis Un_iff set_append)
      then have "y \<in> set (insts ?D')" using ry by (force simp: patched_dest_def)
      moreover have "?D' \<in> set (blocks f')" using b' by simp
      ultimately show ?thesis
        unfolding predecessors_iff using Y(2,4) 2
        by (intro bexI [of _ ?D'] conjI bexI [of _ y]) (simp_all add: patched_dest_def)
    qed
  qed
  have inv: "(\<forall>x\<in>set (leading_phis (insts D)).
                    set (incoming_blocks (ikind x)) \<subseteq> set (predecessors f T))
                \<longrightarrow> (\<forall>x\<in>set (leading_phis (insts ?D')).
                        set (incoming_blocks (ikind x)) \<subseteq> set (predecessors f' T))"
  proof (intro impI ballI subsetI)
    fix x b
    assume h: "\<forall>x\<in>set (leading_phis (insts D)).
                 set (incoming_blocks (ikind x)) \<subseteq> set (predecessors f T)"
      and x: "x \<in> set (leading_phis (insts ?D'))" and bb: "b \<in> set (incoming_blocks (ikind x))"
    obtain y where y: "y \<in> set (leading_phis (insts D))" "x = rekey_phi (bref X) ?B y"
      using x unfolding lp by auto
    from rekey_phi_incoming_cases [OF bb [unfolded y(2)]]
    show "b \<in> set (predecessors f' T)"
    proof
      assume "b = ?B" then show ?thesis using pB by simp
    next
      assume "b \<noteq> bref X \<and> b \<in> set (incoming_blocks (ikind y))"
      then show ?thesis using keep h y(1) by blast
    qed
  qed
  have mir: "U \<noteq> T \<and> single_terminator f
                \<and> (\<forall>x\<in>set (leading_phis (insts D)).
                       set (incoming_blocks (ikind x)) = set (predecessors f T))
                \<longrightarrow> (\<forall>x\<in>set (leading_phis (insts ?D')).
                       set (incoming_blocks (ikind x)) = set (predecessors f' T))"
  proof (intro impI ballI)
    fix x
    assume h: "U \<noteq> T \<and> single_terminator f
                \<and> (\<forall>x\<in>set (leading_phis (insts D)).
                       set (incoming_blocks (ikind x)) = set (predecessors f T))"
      and x: "x \<in> set (leading_phis (insts ?D'))"
    obtain y where y: "y \<in> set (leading_phis (insts D))" "x = rekey_phi (bref X) ?B y"
      using x unfolding lp by auto
    have UT: "U \<noteq> T" and st: "single_terminator f" using h by simp_all
    note ps = preds_after_split [OF assms(1-5) st UT g]
    have "set (incoming_blocks (ikind y)) = set (predecessors f T)" using h y(1) by blast
    then have "set (incoming_blocks (ikind x))
                 = (\<lambda>b. if b = bref X then ?B else b) ` set (predecessors f T)"
      unfolding y(2) rekey_phi_incoming_set by simp
    also have "\<dots> = set (predecessors f T) - {bref X} \<union> {?B}"
      using ps(2) by auto
    finally show "set (incoming_blocks (ikind x)) = set (predecessors f' T)"
      using ps(1) by simp
  qed
  show ?thesis
    apply (rule exI [of _ f'], rule exI [of _ ?D'])
    using g fT lp nx inv mir by (simp only: simp_thms)
qed

theorem phi_entries_rekeyed_witness:
  "distinct_insts ex_invoke \<and> distinct_blocks ex_invoke \<and> single_terminator ex_invoke
   \<and> leading_phis (insts (blocks ex_invoke ! 1))
       = [\<lparr>iref = 11, iname = ''m'', ikind = PHI [(VConstInt 7, 1), (VConstInt 8, 1)]\<rparr>]
   \<and> predecessors ex_invoke 2 = [1]
   \<and> getInsertPointAfter ex_invoke 10 = Some (Inr (ex_invoke_split, 14))
   \<and> (\<exists>D'. find_block ex_invoke_split 2 = Some D'
         \<and> leading_phis (insts D')
             = [\<lparr>iref = 11, iname = ''m'', ikind = PHI [(VConstInt 7, 4), (VConstInt 8, 4)]\<rparr>]
         \<and> list_all (\<lambda>x. 1 \<notin> set (incoming_blocks (ikind x))) (leading_phis (insts D'))
         \<and> list_all (\<lambda>x. set (incoming_blocks (ikind x)) = set (predecessors ex_invoke_split 2))
               (leading_phis (insts D')))
   \<and> predecessors ex_invoke_split 2 = [4]"
proof -
  have h1: "distinct_insts ex_invoke" by (simp add: distinct_insts_def all_insts_def ex_invoke_def)
  have h2: "distinct_blocks ex_invoke" by (simp add: distinct_blocks_def ex_invoke_def)
  have h3: "find_inst ex_invoke 10 = Some (hd (blocks ex_invoke),
              \<lparr>iref = 10, iname = ''c'', ikind = Invoke [] 2 3\<rparr>)"
    by (simp add: find_inst_def ex_invoke_def)
  have h4: "ikind \<lparr>iref = 10, iname = ''c'', ikind = Invoke [] 2 3\<rparr> = Invoke [] 2 3" by simp
  have h5: "find_block ex_invoke 2 = Some (blocks ex_invoke ! 1)"
    by (simp add: find_block_def ex_invoke_def)
  have fi: "fresh_inst ex_invoke = 14"
    by (simp add: fresh_inst_def inst_refs_def all_insts_def ex_invoke_def)
  have fb: "fresh_block ex_invoke = 4"
    by (simp add: fresh_block_def block_refs_def all_insts_def ex_invoke_def)
  have ev: "getInsertPointAfter ex_invoke 10 = Some (Inr (ex_invoke_split, 14))"
    by code_simp
  have bx: "bref (hd (blocks ex_invoke)) = 1" by (simp add: ex_invoke_def)
  have lp: "leading_phis (insts (blocks ex_invoke ! 1))
       = [\<lparr>iref = 11, iname = ''m'', ikind = PHI [(VConstInt 7, 1), (VConstInt 8, 1)]\<rparr>]"
    by (simp add: leading_phis_def ex_invoke_def)
  have pr: "predecessors ex_invoke 2 = [1]" by (simp add: predecessors_def ex_invoke_def)
  have pre: "\<forall>x\<in>set (leading_phis (insts (blocks ex_invoke ! 1))).
               set (incoming_blocks (ikind x)) \<subseteq> set (predecessors ex_invoke 2)"
    unfolding lp pr by simp
  have st: "single_terminator ex_invoke" by (simp add: single_terminator_def ex_invoke_def)
  have ut: "(3::nat) \<noteq> 2" by simp
  have pre2: "\<forall>x\<in>set (leading_phis (insts (blocks ex_invoke ! 1))).
               set (incoming_blocks (ikind x)) = set (predecessors ex_invoke 2)"
    unfolding lp pr by simp
  have pr': "predecessors ex_invoke_split 2 = [4]"
    by (simp add: predecessors_def ex_invoke_split_def)
  obtain f' D' where r: "getInsertPointAfter ex_invoke 10 = Some (Inr (f', 14))"
    "find_block f' 2 = Some D'"
    "leading_phis (insts D') = map (rekey_phi 1 4) (leading_phis (insts (blocks ex_invoke ! 1)))"
    "\<forall>x\<in>set (leading_phis (insts D')). 1 \<notin> set (incoming_blocks (ikind x))"
    "\<forall>x\<in>set (leading_phis (insts D')).
        set (incoming_blocks (ikind x)) \<subseteq> set (predecessors f' 2)"
    "\<forall>x\<in>set (leading_phis (insts D')).
        set (incoming_blocks (ikind x)) = set (predecessors f' 2)"
    using phi_entries_rekeyed [OF h1 h2 h3 h4 h5] pre pre2 st ut unfolding fi fb bx by blast
  have e: "f' = ex_invoke_split" using r(1) ev by simp
  have l': "leading_phis (insts D')
             = [\<lparr>iref = 11, iname = ''m'', ikind = PHI [(VConstInt 7, 4), (VConstInt 8, 4)]\<rparr>]"
    unfolding r(3) lp by (simp add: rekey_phi_def rekey_def)
  show ?thesis
    using h1 h2 st lp pr ev r(2,4,6) l' pr' unfolding e list_all_iff by blast
qed

end
